theory Spec2Isabelle
  imports Main "HOL-Library.Signed_Division"
begin

unbundle bit_operations_syntax

section \<open>The integer type \<open>uint1024\<close>\<close>

text \<open>
  The program computes with
  \<^verbatim>\<open>using uint1024 = number<cpp_int_backend<4096, 4096, signed_magnitude, unchecked, void>>\<close>:
  a sign and a magnitude of at most 4096 bits, with no allocation and no overflow check.
  A result whose magnitude does not fit keeps its low 4096 bits and its sign; zero is
  never negative. Values are modelled as \<open>int\<close>; every operation of the type whose result
  can leave the range is followed by \<open>truncate_bits\<close>.
\<close>

definition MaxBits :: nat where
  "MaxBits = 4096"

definition truncate_bits :: "int \<Rightarrow> int" where
  "truncate_bits v = sgn v * (\<bar>v\<bar> mod 2 ^ MaxBits)"

definition in_range :: "int \<Rightarrow> bool" where
  "in_range v \<longleftrightarrow> \<bar>v\<bar> < 2 ^ MaxBits"

definition add :: "int \<Rightarrow> int \<Rightarrow> int" where
  "add a b = truncate_bits (a + b)"

definition sub :: "int \<Rightarrow> int \<Rightarrow> int" where
  "sub a b = truncate_bits (a - b)"

definition mul :: "int \<Rightarrow> int \<Rightarrow> int" where
  "mul a b = truncate_bits (a * b)"

text \<open>
  \<open>/\<close> and \<open>%\<close> truncate towards zero, the remainder has the sign of the dividend, and a
  zero divisor throws \<open>std::overflow_error\<close>. A shift by a negative count throws
  \<open>std::out_of_range\<close>; bits shifted past position 4095 are lost.
\<close>

datatype error = DivisionByZero | NegativeShift

definition divide :: "int \<Rightarrow> int \<Rightarrow> error + int" where
  "divide a b = (if b = 0 then Inl DivisionByZero else Inr (a sdiv b))"

definition modulo :: "int \<Rightarrow> int \<Rightarrow> error + int" where
  "modulo a b = (if b = 0 then Inl DivisionByZero else Inr (a smod b))"

definition shift_left :: "int \<Rightarrow> int \<Rightarrow> error + int" where
  "shift_left a n = (if n < 0 then Inl NegativeShift else Inr (truncate_bits (a * 2 ^ nat n)))"

text \<open>A shift by an unsigned count cannot throw.\<close>

definition shift_left_u :: "int \<Rightarrow> nat \<Rightarrow> int" where
  "shift_left_u a n = truncate_bits (a * 2 ^ n)"

section \<open>Binary modular exponentiation\<close>

text \<open>
  \<^verbatim>\<open>uint1024 BinPower(const uint1024& base, uint1024 power, const uint1024& mod)\<close>
\<close>

function BinPower :: "int \<Rightarrow> int \<Rightarrow> int \<Rightarrow> error + int" where
  "BinPower base pwr md =
     (if pwr = 0 then Inr 1
      else case BinPower base (pwr sdiv 2) md of
             Inl e \<Rightarrow> Inl e
           | Inr value \<Rightarrow>
               (case modulo (mul value value) md of
                  Inl e \<Rightarrow> Inl e
                | Inr value \<Rightarrow>
                    if pwr smod 2 \<noteq> 0 then modulo (mul value base) md
                    else Inr value))"
  by pat_completeness auto
termination
proof (relation "measure (\<lambda>(base, pwr, md). nat \<bar>pwr\<bar>)")
  show "wf (measure (\<lambda>(base, pwr, md). nat \<bar>pwr\<bar>))"
    by simp
next
  fix base pwr md :: int
  assume "pwr \<noteq> 0"
  then have "\<bar>pwr\<bar> div 2 < \<bar>pwr\<bar>"
    by simp
  then have "\<bar>pwr sdiv 2\<bar> < \<bar>pwr\<bar>"
    by (simp add: signed_divide_int_def abs_mult)
  then show "((base, pwr sdiv 2, md), (base, pwr, md))
      \<in> measure (\<lambda>(base, pwr, md). nat \<bar>pwr\<bar>)"
    by simp
qed

declare BinPower.simps [simp del]

section \<open>The primality test\<close>

text \<open>
  \<^verbatim>\<open>bool IsPrime(uint1024 value)\<close> starts with trial division by the entries of
  \<^verbatim>\<open>primes = {3, 5, 7, 11, 13, 17, 19, 23, 29, 31}\<close>; the first entry that divides
  \<open>value\<close> makes it return \<open>false\<close> at once. The divisors are the non-zero constants of the
  array, so \<open>%\<close> cannot throw here.
\<close>

definition primes :: "int list" where
  "primes = [3, 5, 7, 11, 13, 17, 19, 23, 29, 31]"

fun trial_division :: "int list \<Rightarrow> int \<Rightarrow> bool" where
  "trial_division [] value = False"
| "trial_division (p # ps) value =
     (if value smod p = 0 then True else trial_division ps value)"

text \<open>
  \<^verbatim>\<open>while((value & (temp << power)) == 0) { ++power; }\<close> with \<open>temp = 1\<close> and
  \<open>power\<close> a \<open>uint32_t\<close>, which wraps around at \<open>2 ^ 32\<close>. The loop has no bound: a run
  that never leaves it is the value \<open>None\<close>.
\<close>

partial_function (option) scan_power :: "int \<Rightarrow> nat \<Rightarrow> nat option" where
  "scan_power value pwr =
     (if value AND shift_left_u 1 pwr = 0 then scan_power value ((pwr + 1) mod 2 ^ 32)
      else Some pwr)"

text \<open>
  \<^verbatim>\<open>for (uint32_t i = 1; i < power; ++i)\<close>: the squaring loop. \<open>i < power\<close> keeps
  \<open>++i\<close> from wrapping.
\<close>

function squaring_loop :: "nat \<Rightarrow> nat \<Rightarrow> int \<Rightarrow> int \<Rightarrow> error + bool" where
  "squaring_loop i pwr surplus value =
     (if i < pwr then
        (case modulo (mul surplus surplus) value of
           Inl e \<Rightarrow> Inl e
         | Inr surplus' \<Rightarrow>
             if surplus' = sub value 1 then Inr True
             else squaring_loop (i + 1) pwr surplus' value)
      else Inr False)"
  by pat_completeness auto
termination
  by (relation "measure (\<lambda>(i, pwr, surplus, value). pwr - i)") auto

declare squaring_loop.simps [simp del]

text \<open>
  The part of \<open>IsPrime\<close> after the scan, from \<^verbatim>\<open>uint1024 q{value / (temp << power)}\<close>
  on: the witness check with the fixed base 2.
\<close>

definition witness_check :: "int \<Rightarrow> nat \<Rightarrow> error + bool" where
  "witness_check value pwr =
     (case divide value (shift_left_u 1 pwr) of
        Inl e \<Rightarrow> Inl e
      | Inr q \<Rightarrow>
          (case BinPower 2 q value of
             Inl e \<Rightarrow> Inl e
           | Inr surplus \<Rightarrow>
               if surplus = 1 \<or> surplus = sub value 1 then Inr True
               else squaring_loop 1 pwr surplus value))"

text \<open>
  \<open>IsPrime\<close> as a whole. \<open>--value\<close> before the scan and \<open>++value\<close> after it are the
  type's own subtraction and addition.
\<close>

definition IsPrime :: "int \<Rightarrow> (error + bool) option" where
  "IsPrime value =
     (if trial_division primes value then Some (Inr False)
      else case scan_power (sub value 1) 0 of
             None \<Rightarrow> None
           | Some pwr \<Rightarrow> Some (witness_check (add (sub value 1) 1) pwr))"

section \<open>Random candidates and prime generation\<close>

text \<open>
  The random engine is an explicit parameter: \<open>coins\<close> is the sequence of values that
  \<^verbatim>\<open>uniform_dist(*engine)\<close> returns, and a position in it is the engine's state.
  \<^verbatim>\<open>GetRandBits\<close> sets bit \<open>i\<close> when the \<open>i\<close>-th draw is even, that is when the coin
  shows 0.
\<close>

function GetRandBits_loop :: "int \<Rightarrow> int \<Rightarrow> (nat \<Rightarrow> int) \<Rightarrow> nat \<Rightarrow> int \<Rightarrow> int" where
  "GetRandBits_loop i bits coins pos value =
     (if i < bits then
        GetRandBits_loop (i + 1) bits coins (pos + 1)
          (if coins pos AND 1 = 0 then value OR shift_left_u 1 (nat i) else value)
      else value)"
  by pat_completeness auto
termination
  by (relation "measure (\<lambda>(i, bits, coins, pos, value). nat (bits - i))") auto

declare GetRandBits_loop.simps [simp del]

definition GetRandBits :: "int \<Rightarrow> (nat \<Rightarrow> int) \<Rightarrow> nat \<Rightarrow> int" where
  "GetRandBits bits coins pos = GetRandBits_loop 0 bits coins pos 0"

text \<open>
  \<^verbatim>\<open>while (true)\<close> in \<open>FPrime\<close>: every round draws \<open>bits\<close> coins. \<open>&&\<close> evaluates
  \<open>IsPrime\<close> only when \<open>value % e != 1\<close>. The counter \<open>count\<close> is never read and is
  left out.
\<close>

partial_function (option) FPrime_loop ::
    "int \<Rightarrow> int \<Rightarrow> int \<Rightarrow> (nat \<Rightarrow> int) \<Rightarrow> nat \<Rightarrow> (error + int) option" where
  "FPrime_loop bits e msk coins pos =
     (let value = GetRandBits bits coins pos OR msk in
      case modulo value e of
        Inl err \<Rightarrow> Some (Inl err)
      | Inr r \<Rightarrow>
          if r \<noteq> 1 then
            (case IsPrime value of
               None \<Rightarrow> None
             | Some (Inl err) \<Rightarrow> Some (Inl err)
             | Some (Inr accepted) \<Rightarrow>
                 if accepted then Some (Inr value)
                 else FPrime_loop bits e msk coins (pos + nat bits))
          else FPrime_loop bits e msk coins (pos + nat bits))"

definition FPrime :: "int \<Rightarrow> (nat \<Rightarrow> int) \<Rightarrow> (error + int) option" where
  "FPrime bits coins =
     (case BinPower 2 16 1000000000 of
        Inl err \<Rightarrow> Some (Inl err)
      | Inr r \<Rightarrow>
          (let e = add r 1 in
           case shift_left 3 (bits - 2) of
             Inl err \<Rightarrow> Some (Inl err)
           | Inr s \<Rightarrow> FPrime_loop bits e (s OR 1) coins 0))"

text \<open>
  \<^verbatim>\<open>uint1024 GeneratePrime(uint32_t bitsCount)\<close> hands its argument to
  \<^verbatim>\<open>FPrime(int32_t bits)\<close>, which reads the 32 bits as a two's-complement value. A caller
  that passes an \<open>int\<close> has it converted to \<open>uint32_t\<close> first.
\<close>

definition to_uint32 :: "int \<Rightarrow> int" where
  "to_uint32 n = n mod 2 ^ 32"

definition to_int32 :: "int \<Rightarrow> int" where
  "to_int32 n = (n + 2 ^ 31) mod 2 ^ 32 - 2 ^ 31"

definition GeneratePrime :: "int \<Rightarrow> (nat \<Rightarrow> int) \<Rightarrow> (error + int) option" where
  "GeneratePrime bitsCount coins = FPrime (to_int32 bitsCount) coins"

section \<open>Extended Euclidean algorithm\<close>

text \<open>
  \<^verbatim>\<open>std::pair<uint1024, uint1024> ExtendedEuclidian(const uint1024& e, const uint1024& phi)\<close>.
  The divisor \<open>e\<close> is not zero where \<open>%\<close> and \<open>/\<close> are reached.
\<close>

function ExtendedEuclidian :: "int \<Rightarrow> int \<Rightarrow> int \<times> int" where
  "ExtendedEuclidian e phi =
     (if e = 0 then (0, 1)
      else let tmp = ExtendedEuclidian (phi smod e) e;
               x1 = fst tmp;
               y1 = snd tmp
           in (sub y1 (mul (phi sdiv e) x1), x1))"
  by pat_completeness auto
termination
proof (relation "measure (\<lambda>(e, phi). nat \<bar>e\<bar>)")
  show "wf (measure (\<lambda>(e, phi). nat \<bar>e\<bar>))"
    by simp
next
  fix e phi :: int
  assume "e \<noteq> 0"
  then have "\<bar>phi\<bar> mod \<bar>e\<bar> < \<bar>e\<bar>" and "0 \<le> \<bar>phi\<bar> mod \<bar>e\<bar>"
    by simp_all
  then have "\<bar>phi smod e\<bar> < \<bar>e\<bar>"
    using \<open>e \<noteq> 0\<close> by (simp add: signed_modulo_int_def abs_mult)
  then show "((phi smod e, e), (e, phi)) \<in> measure (\<lambda>(e, phi). nat \<bar>e\<bar>)"
    by simp
qed

declare ExtendedEuclidian.simps [simp del]

section \<open>Key generation and the cipher\<close>

record TRSAKeys =
  PublicKey :: "int \<times> int"
  PrivateKey :: "int \<times> int"

definition make_TRSAKeys :: "int \<Rightarrow> int \<Rightarrow> int \<Rightarrow> TRSAKeys" where
  "make_TRSAKeys openKey privateKey module =
     \<lparr>PublicKey = (openKey, module), PrivateKey = (privateKey, module)\<rparr>"

text \<open>
  \<^verbatim>\<open>while (privateExp < 0)\<close> in \<open>GenerateRSAKeys\<close>. Every call of \<open>GeneratePrime\<close>
  builds an engine of its own, so the \<open>k\<close>-th call reads the coin sequence \<open>seeds k\<close>.
\<close>

partial_function (option) exponent_loop ::
    "int \<Rightarrow> int \<Rightarrow> (nat \<Rightarrow> nat \<Rightarrow> int) \<Rightarrow> nat \<Rightarrow> int \<Rightarrow> int \<Rightarrow> (error + int \<times> int) option" where
  "exponent_loop bitsCount phi seeds k openExp privateExp =
     (if privateExp < 0 then
        (case GeneratePrime (to_uint32 (min bitsCount 32)) (seeds k) of
           None \<Rightarrow> None
         | Some (Inl err) \<Rightarrow> Some (Inl err)
         | Some (Inr openExp') \<Rightarrow>
             (let temp = ExtendedEuclidian openExp' phi;
                  privateExpValue = fst temp
              in exponent_loop bitsCount phi seeds (k + 1) openExp' privateExpValue))
      else Some (Inr (openExp, privateExp)))"

text \<open>
  Text written to \<open>std::cerr\<close> is returned beside the result, as a list of lines.
\<close>

definition GenerateRSAKeys ::
    "int \<Rightarrow> int \<Rightarrow> int \<Rightarrow> (nat \<Rightarrow> nat \<Rightarrow> int) \<Rightarrow> (error + string list \<times> TRSAKeys) option" where
  "GenerateRSAKeys p q bitsCount seeds =
     (let moduleValue = mul p q;
          phi = mul (sub p 1) (sub q 1)
      in case exponent_loop bitsCount phi seeds 0 0 (- 1) of
           None \<Rightarrow> None
         | Some (Inl err) \<Rightarrow> Some (Inl err)
         | Some (Inr (openExp, privateExp)) \<Rightarrow>
             (case modulo (mul openExp privateExp) phi of
                Inl err \<Rightarrow> Some (Inl err)
              | Inr r \<Rightarrow>
                  Some (Inr (if r \<noteq> 1 then [''Warning. Incorrect exps''] else [],
                             make_TRSAKeys openExp privateExp moduleValue))))"

definition Encode :: "int \<Rightarrow> int \<times> int \<Rightarrow> string list \<times> (error + int)" where
  "Encode value publicKey =
     (if value \<ge> snd publicKey then [''Block is too large.''] else [],
      BinPower value (fst publicKey) (snd publicKey))"

definition Decode :: "int \<Rightarrow> int \<times> int \<Rightarrow> error + int" where
  "Decode value privateKey = BinPower value (fst privateKey) (snd privateKey)"

section \<open>Notions used to state the properties\<close>

text \<open>
  One squaring modulo \<open>value\<close>, the exact square of the integers reduced modulo \<open>value\<close>,
  and the value after \<open>i\<close> successive squarings of \<open>surplus\<close>.
\<close>

definition square_mod :: "int \<Rightarrow> int \<Rightarrow> int" where
  "square_mod value s = (s * s) mod value"

definition squarings :: "int \<Rightarrow> int \<Rightarrow> nat \<Rightarrow> int" where
  "squarings value surplus i = (square_mod value ^^ i) surplus"

text \<open>The number of times the body of the squaring loop runs.\<close>

function squaring_rounds :: "nat \<Rightarrow> nat \<Rightarrow> int \<Rightarrow> int \<Rightarrow> nat" where
  "squaring_rounds i pwr surplus value =
     (if i < pwr then
        (case modulo (mul surplus surplus) value of
           Inl e \<Rightarrow> 1
         | Inr surplus' \<Rightarrow>
             if surplus' = sub value 1 then 1
             else 1 + squaring_rounds (i + 1) pwr surplus' value)
      else 0)"
  by pat_completeness auto
termination
  by (relation "measure (\<lambda>(i, pwr, surplus, value). pwr - i)") auto

declare squaring_rounds.simps [simp del]

text \<open>Primality of an integer, by bounded search for a divisor.\<close>

definition is_prime :: "int \<Rightarrow> bool" where
  "is_prime p \<longleftrightarrow> 1 < p \<and> (\<forall>d\<in>{2..<p}. \<not> d dvd p)"

section \<open>Arithmetic of the integer type\<close>

lemma truncate_bits_id: "\<bar>v\<bar> < 2 ^ MaxBits \<Longrightarrow> truncate_bits v = v"
  by (simp add: truncate_bits_def mult_sgn_abs)

lemma truncate_bits_nonneg: "0 \<le> v \<Longrightarrow> truncate_bits v = v mod 2 ^ MaxBits"
  by (cases "v = 0") (simp_all add: truncate_bits_def)

lemma truncate_bits_small: "\<bar>v\<bar> < 2 ^ 64 \<Longrightarrow> truncate_bits v = v"
proof -
  assume "\<bar>v\<bar> < 2 ^ 64"
  also have "(2::int) ^ 64 \<le> 2 ^ MaxBits"
    by (rule power_increasing) (simp_all add: MaxBits_def)
  finally show ?thesis
    by (rule truncate_bits_id)
qed

lemma limit_ge_64: "(2::int) ^ 64 \<le> 2 ^ MaxBits"
  by (rule power_increasing) (simp_all add: MaxBits_def)

lemma mul_exact: "0 \<le> a \<Longrightarrow> 0 \<le> b \<Longrightarrow> a * b < 2 ^ MaxBits \<Longrightarrow> mul a b = a * b"
  by (simp add: mul_def truncate_bits_id)

lemma sub_exact: "\<bar>a - b\<bar> < 2 ^ MaxBits \<Longrightarrow> sub a b = a - b"
  by (simp add: sub_def truncate_bits_id)

lemma add_exact: "\<bar>a + b\<bar> < 2 ^ MaxBits \<Longrightarrow> add a b = a + b"
  by (simp add: add_def truncate_bits_id)

lemma smod_nonneg: "0 \<le> a \<Longrightarrow> 0 \<le> b \<Longrightarrow> a smod b = a mod (b::int)"
  by (cases "a = 0") (simp_all add: signed_modulo_int_def)

lemma sdiv_nonneg: "0 \<le> a \<Longrightarrow> 0 \<le> b \<Longrightarrow> a sdiv b = a div (b::int)"
  by (cases "a = 0"; cases "b = 0") (simp_all add: signed_divide_int_def)

lemma small_sdiv_smod:
  "(1::int) sdiv 2 = 0" "(1::int) smod 2 = 1" "(2::int) sdiv 2 = 1" "(2::int) smod 2 = 0"
  by (simp_all add: signed_divide_int_def signed_modulo_int_def)

lemma modulo_nonneg: "0 \<le> a \<Longrightarrow> 0 < b \<Longrightarrow> modulo a b = Inr (a mod b)"
  by (simp add: modulo_def smod_nonneg)

lemma BinPower_zero: "BinPower b 0 m = Inr 1"
  by (simp add: BinPower.simps)

lemma BinPower_total: "md \<noteq> 0 \<Longrightarrow> \<exists>s. BinPower b k md = Inr s"
proof (induction b k md rule: BinPower.induct)
  case (1 base pwr md)
  show ?case
  proof (cases "pwr = 0")
    case True
    then show ?thesis by (simp add: BinPower.simps)
  next
    case False
    with 1 obtain v where "BinPower base (pwr sdiv 2) md = Inr v" by blast
    with False \<open>md \<noteq> 0\<close> show ?thesis
      by (subst BinPower.simps) (simp add: modulo_def)
  qed
qed

lemma BinPower_exact_nat:
  assumes "0 \<le> b" and "1 < m"
    and sq: "(m - 1) * (m - 1) < 2 ^ MaxBits" and pr: "(m - 1) * b < 2 ^ MaxBits"
  shows "BinPower b (int n) m = Inr (b ^ n mod m)"
proof (induction n rule: less_induct)
  case (less n)
  show ?case
  proof (cases "n = 0")
    case True
    with \<open>1 < m\<close> show ?thesis
      by (simp add: BinPower_zero)
  next
    case False
    define h where "h = n div 2"
    define v where "v = b ^ h mod m"
    define w where "w = (v * v) mod m"
    have h: "h < n" and half: "int n sdiv 2 = int h"
      using False by (simp_all add: h_def sdiv_nonneg zdiv_int)
    have rec: "BinPower b (int n sdiv 2) m = Inr v"
      unfolding half v_def by (rule less.IH [OF h])
    have v: "0 \<le> v" "v \<le> m - 1"
      using \<open>1 < m\<close> by (simp_all add: v_def)
    then have "v * v \<le> (m - 1) * (m - 1)"
      by (intro mult_mono) simp_all
    with sq v have vv: "mul v v = v * v"
      by (simp add: mul_exact)
    have sqr: "modulo (mul v v) m = Inr w"
      using v \<open>1 < m\<close> by (simp add: vv w_def modulo_nonneg)
    have w: "0 \<le> w" "w \<le> m - 1"
      using \<open>1 < m\<close> by (simp_all add: w_def)
    then have "w * b \<le> (m - 1) * b"
      using \<open>0 \<le> b\<close> by (intro mult_right_mono) simp_all
    with pr w \<open>0 \<le> b\<close> have wb: "mul w b = w * b"
      by (simp add: mul_exact)
    have odd_mul: "modulo (mul w b) m = Inr ((w * b) mod m)"
      using w \<open>0 \<le> b\<close> \<open>1 < m\<close> by (simp add: wb modulo_nonneg)
    have parity: "int n smod 2 \<noteq> 0 \<longleftrightarrow> odd n"
      by (simp add: smod_nonneg flip: of_nat_mod) presburger
    have w_eq: "w = b ^ (2 * h) mod m"
      by (simp add: w_def v_def power2_eq_square mod_mult_eq power_mult_distrib
          mult_2 power_add)
    show ?thesis
    proof (cases "odd n")
      case True
      then have n: "n = Suc (2 * h)"
        by (auto simp: h_def elim: oddE)
      have "(w * b) mod m = b ^ n mod m"
        by (simp add: w_eq n mod_mult_right_eq mult.commute)
      with True False rec sqr odd_mul parity show ?thesis
        by (subst BinPower.simps) simp
    next
      case False
      then have n: "n = 2 * h"
        by (auto simp: h_def elim: evenE)
      with \<open>n \<noteq> 0\<close> False rec sqr parity show ?thesis
        by (subst BinPower.simps) (simp add: w_eq)
    qed
  qed
qed

lemma BinPower_square_overflow:
  assumes h: "MaxBits = 2 * h" "0 < h"
  defines "B \<equiv> 2 ^ h" and "M \<equiv> 2 ^ MaxBits - 1"
  shows "in_range B \<and> in_range M \<and> 1 < M \<and> BinPower B 2 M = Inr 0 \<and> B ^ nat 2 mod M = 1"
proof -
  have BB: "B * B = 2 ^ MaxBits"
    by (simp add: B_def h mult_2 power_add)
  have "(2::int) ^ 0 < 2 ^ h" "(2::int) ^ 1 < 2 ^ MaxBits"
    using h by (intro power_strict_increasing; simp)+
  moreover have "(2::int) ^ Suc h \<le> 2 ^ MaxBits"
    using h by (intro power_increasing) simp_all
  ultimately have B: "1 < B" "B < M" "1 < M"
    by (simp_all add: B_def M_def)
  have r: "in_range B" "in_range M"
    using B by (simp_all add: in_range_def M_def)
  have "mul 1 B = B"
    using r by (simp add: mul_def truncate_bits_id in_range_def)
  moreover have "mul 1 1 = 1"
    using B by (simp add: mul_def truncate_bits_id M_def)
  ultimately have one: "BinPower B 1 M = Inr B"
    using B by (simp add: BinPower.simps [of B 1] BinPower_zero small_sdiv_smod
        modulo_def signed_modulo_int_def)
  have "mul B B = 0"
    by (simp add: mul_def BB truncate_bits_def)
  then have two: "BinPower B 2 M = Inr 0"
    using B by (simp add: BinPower.simps [of B 2] one modulo_def small_sdiv_smod)
  have "B ^ nat 2 mod M = (M + 1) mod M"
    by (simp add: M_def BB power2_eq_square eval_nat_numeral)
  also have "\<dots> = 1"
    using B by simp
  finally show ?thesis
    using r B two by simp
qed

lemma shift_left_u_one: "n < MaxBits \<Longrightarrow> shift_left_u 1 n = 2 ^ n"
  by (simp add: shift_left_u_def truncate_bits_id)

lemma bit_power_mult: "bit ((2::int) ^ k * q) j \<longleftrightarrow> k \<le> j \<and> bit q (j - k)"
  using bit_push_bit_iff [of k q j] by (simp add: push_bit_eq_mult mult.commute)

lemma scan_power_step:
  assumes "v = 2 ^ k * q" and "odd q" and "k < MaxBits"
  shows "j \<le> k \<Longrightarrow> scan_power v j = Some k"
proof (induction "k - j" arbitrary: j)
  case 0
  then have "j = k" by simp
  moreover have "bit v k"
    using assms by (simp add: bit_power_mult bit_0)
  ultimately show ?case
    using assms by (subst scan_power.simps) (simp add: shift_left_u_one and_exp_eq_0_iff_not_bit)
next
  case (Suc d)
  then have j: "j < k" "Suc j \<le> k" "d = k - Suc j" by simp_all
  have "\<not> bit v j"
    using assms j by (simp add: bit_power_mult)
  moreover have "j < MaxBits" using j assms by simp
  moreover have "(j + 1) mod 2 ^ 32 = Suc j"
    using j assms by (simp add: MaxBits_def)
  ultimately show ?case
    using Suc.hyps(1) [OF j(3) j(2)]
    by (subst scan_power.simps) (simp add: shift_left_u_one and_exp_eq_0_iff_not_bit)
qed

lemma scan_power_zero: "scan_power 0 j = None"
proof -
  have "scan_power v j = Some y \<Longrightarrow> v \<noteq> 0" for v y
    by (rule scan_power.raw_induct [where P = "\<lambda>v j y. v \<noteq> 0"]) (auto split: if_splits)
  then show ?thesis
    by (cases "scan_power 0 j") auto
qed

lemma two_power_decomp:
  "0 < (v::int) \<Longrightarrow> \<exists>k q. v = 2 ^ k * q \<and> odd q \<and> 0 < q"
proof (induction "nat v" arbitrary: v rule: less_induct)
  case less
  show ?case
  proof (cases "odd v")
    case True
    with less.prems have "v = 2 ^ 0 * v \<and> odd v \<and> 0 < v" by simp
    then show ?thesis by blast
  next
    case False
    then obtain w where w: "v = 2 * w" by (auto elim: evenE)
    with less.prems have "0 < w" "nat w < nat v" by simp_all
    from less.hyps [OF this(2) this(1)] obtain k q where "w = 2 ^ k * q" "odd q" "0 < q"
      by blast
    with w have "v = 2 ^ Suc k * q \<and> odd q \<and> 0 < q" by simp
    then show ?thesis by blast
  qed
qed

lemma exp_less_limit: "0 < q \<Longrightarrow> 2 ^ k * q < (2::int) ^ MaxBits \<Longrightarrow> k < MaxBits"
proof -
  assume "0 < q" "2 ^ k * q < (2::int) ^ MaxBits"
  then have "(2::int) ^ k * 1 \<le> 2 ^ k * q"
    by (intro mult_left_mono) simp_all
  then have "(2::int) ^ k \<le> 2 ^ k * q" by simp
  also note \<open>2 ^ k * q < 2 ^ MaxBits\<close>
  finally show ?thesis by simp
qed

lemma trial_division_iff: "0 \<notin> set ps \<Longrightarrow> trial_division ps v \<longleftrightarrow> (\<exists>p\<in>set ps. p dvd v)"
proof (induction ps)
  case Nil
  then show ?case by simp
next
  case (Cons p ps)
  have "v smod p = 0 \<longleftrightarrow> \<bar>p\<bar> dvd \<bar>v\<bar>"
    by (cases "v = 0") (auto simp: signed_modulo_int_def sgn_if dvd_eq_mod_eq_0)
  with Cons show ?case by auto
qed

lemma trial_division_primes: "trial_division primes v \<longleftrightarrow> (\<exists>p\<in>set primes. p dvd v)"
  by (rule trial_division_iff) (simp add: primes_def)

lemma square_mod_range: "0 < v \<Longrightarrow> 0 \<le> square_mod v s \<and> square_mod v s < v"
  by (simp add: square_mod_def)

lemma squarings_Suc: "squarings v s (Suc j) = squarings v (square_mod v s) j"
  by (simp add: squarings_def funpow_swap1)

lemma squarings_exact:
  assumes "0 < v" "0 \<le> s" "s < v"
  shows "squarings v s i = s ^ 2 ^ i mod v"
proof (induction i)
  case 0
  with assms show ?case by (simp add: squarings_def)
next
  case (Suc i)
  have "squarings v s (Suc i) = square_mod v (squarings v s i)"
    by (simp add: squarings_def)
  also have "\<dots> = (s ^ 2 ^ i mod v * (s ^ 2 ^ i mod v)) mod v"
    by (simp add: Suc square_mod_def)
  also have "\<dots> = s ^ 2 ^ Suc i mod v"
    by (simp add: mod_mult_eq power_mult power2_eq_square mult.commute power_mult_distrib)
  finally show ?case .
qed

lemma square_step_exact:
  assumes "0 < v" "v * v \<le> 2 ^ MaxBits" "0 \<le> s" "s < v"
  shows "modulo (mul s s) v = Inr (square_mod v s)"
proof -
  have "s \<le> v - 1"
    using assms by simp
  with assms have "s * s \<le> (v - 1) * (v - 1)"
    by (intro mult_mono) simp_all
  also have "\<dots> < v * v"
    using assms by (simp add: algebra_simps)
  finally have "mul s s = s * s"
    using assms by (simp add: mul_exact)
  with assms show ?thesis
    by (simp add: modulo_nonneg square_mod_def)
qed

lemma squaring_loop_iff:
  "0 < value \<Longrightarrow> value * value \<le> 2 ^ MaxBits \<Longrightarrow> 0 \<le> s \<Longrightarrow> s < value
   \<Longrightarrow> squaring_loop i pwr s value
     = Inr (\<exists>j. 1 \<le> j \<and> j \<le> pwr - i \<and> squarings value s j = value - 1)"
proof (induction i pwr s "value" rule: squaring_loop.induct)
  case (1 i pwr surplus v)
  let ?t = "v - 1"
  let ?s' = "square_mod v surplus"
  have step: "modulo (mul surplus surplus) v = Inr ?s'"
    using "1.prems" by (rule square_step_exact)
  have "v < 2 ^ MaxBits"
  proof -
    have "v * 1 \<le> v * v"
      using "1.prems"(1) by (intro mult_left_mono) simp_all
    moreover have "v \<noteq> 2 ^ MaxBits"
    proof
      assume eq: "v = 2 ^ MaxBits"
      have "(1::int) < 2 ^ MaxBits"
        by (simp add: MaxBits_def)
      then have "(2::int) ^ MaxBits * 1 < 2 ^ MaxBits * 2 ^ MaxBits"
        by (intro mult_strict_left_mono) simp_all
      with "1.prems"(2) eq show False
        by simp
    qed
    ultimately show ?thesis
      using "1.prems"(2) by simp
  qed
  then have t: "sub v 1 = ?t"
    using "1.prems"(1) by (simp add: sub_exact)
  have range: "0 \<le> ?s'" "?s' < v"
    using square_mod_range [OF "1.prems"(1)] by simp_all
  show ?case
  proof (cases "i < pwr")
    case False
    then show ?thesis
      by (subst squaring_loop.simps) simp
  next
    case True
    show ?thesis
    proof (cases "?s' = ?t")
      case hit: True
      have "squarings v surplus 1 = ?t"
        using hit by (simp add: squarings_def)
      with True have "\<exists>j. 1 \<le> j \<and> j \<le> pwr - i \<and> squarings v surplus j = ?t"
        by (intro exI [of _ 1]) simp
      with True hit step t show ?thesis
        by (subst squaring_loop.simps) simp
    next
      case miss: False
      then have miss': "?s' \<noteq> sub v 1"
        by (simp add: t)
      have IH: "squaring_loop (i + 1) pwr ?s' v
          = Inr (\<exists>j. 1 \<le> j \<and> j \<le> pwr - (i + 1) \<and> squarings v ?s' j = ?t)"
        using "1.IH" [OF True step miss' "1.prems"(1,2) range] .
      have "(\<exists>j. 1 \<le> j \<and> j \<le> pwr - i \<and> squarings v surplus j = ?t)
          \<longleftrightarrow> (\<exists>j. 1 \<le> j \<and> j \<le> pwr - (i + 1) \<and> squarings v ?s' j = ?t)"
        (is "?L \<longleftrightarrow> ?R")
      proof
        assume ?L
        then obtain j where j: "1 \<le> j" "j \<le> pwr - i" "squarings v surplus j = ?t"
          by blast
        then obtain j' where j': "j = Suc j'"
          by (cases j) simp_all
        with j miss have "j' \<noteq> 0"
          by (cases j') (auto simp: squarings_def)
        with j j' show ?R
          by (intro exI [of _ j']) (simp add: squarings_Suc)
      next
        assume ?R
        then obtain j where "1 \<le> j" "j \<le> pwr - (i + 1)" "squarings v ?s' j = ?t"
          by blast
        then show ?L
          by (intro exI [of _ "Suc j"]) (simp add: squarings_Suc)
      qed
      with True miss' step IH show ?thesis
        by (subst squaring_loop.simps) simp
    qed
  qed
qed

lemma squaring_rounds_le: "squaring_rounds i pwr s value \<le> pwr - i"
proof (induction i pwr s "value" rule: squaring_rounds.induct)
  case (1 i pwr surplus v)
  show ?case
  proof (cases "i < pwr")
    case False
    then show ?thesis by (subst squaring_rounds.simps) simp
  next
    case True
    show ?thesis
    proof (cases "modulo (mul surplus surplus) v")
      case (Inl e)
      with True show ?thesis by (subst squaring_rounds.simps) simp
    next
      case (Inr s')
      with True "1.IH" [OF True Inr] show ?thesis
        by (subst squaring_rounds.simps) (auto simp: Suc_le_eq)
    qed
  qed
qed

section \<open>Evaluation and totality of the primality test\<close>

lemmas eval_simps = BinPower.simps modulo_def divide_def mul_def sub_def add_def
  shift_left_u_def truncate_bits_small signed_divide_int_def signed_modulo_int_def
  primes_def witness_check_def squaring_loop.simps

lemma scan_power_odd: "odd v \<Longrightarrow> scan_power v 0 = Some 0"
  by (subst scan_power.simps)
    (simp add: shift_left_u_def truncate_bits_small and_one_eq flip: even_iff_mod_2_eq_zero)

lemma IsPrime_2: "\<not> trial_division primes 2 \<and> IsPrime 2 = Some (Inr False)"
  by (simp add: IsPrime_def scan_power_odd eval_simps)

lemma IsPrime_filter_members:
  "\<forall>p\<in>set primes. trial_division primes p \<and> IsPrime p = Some (Inr False)"
  by (simp add: IsPrime_def primes_def signed_modulo_int_def)

lemma is_prime_le_31:
  assumes "is_prime p" "p \<le> 31"
  shows "p = 2 \<or> p \<in> set primes"
proof -
  have d: "d dvd p \<Longrightarrow> 2 \<le> d \<Longrightarrow> d = p" if "d \<le> p" for d
    using assms(1) that unfolding is_prime_def by (cases "d = p") auto
  have "1 < p" using assms by (simp add: is_prime_def)
  have "2 dvd p \<Longrightarrow> p = 2" "3 dvd p \<Longrightarrow> p = 3" "5 dvd p \<Longrightarrow> p = 5"
    using d [of 2] d [of 3] d [of 5] \<open>1 < p\<close> zdvd_imp_le [of _ p] by fastforce+
  with \<open>1 < p\<close> \<open>p \<le> 31\<close> show ?thesis
    unfolding primes_def by (simp) presburger
qed

lemma IsPrime_one: "\<not> trial_division primes 1 \<and> scan_power (sub 1 1) 0 = None \<and> IsPrime 1 = None"
  by (simp add: IsPrime_def primes_def signed_modulo_int_def sub_def truncate_bits_def
      scan_power_zero)

lemma squaring_loop_total: "value \<noteq> 0 \<Longrightarrow> \<exists>r. squaring_loop i pwr s value = Inr r"
proof (induction i pwr s "value" rule: squaring_loop.induct)
  case (1 i pwr surplus v)
  show ?case
  proof (cases "i < pwr")
    case False
    then show ?thesis
      by (subst squaring_loop.simps) auto
  next
    case True
    have step: "modulo (mul surplus surplus) v = Inr (mul surplus surplus smod v)"
      using \<open>v \<noteq> 0\<close> by (simp add: modulo_def)
    show ?thesis
    proof (cases "mul surplus surplus smod v = sub v 1")
      case hit: True
      with True step show ?thesis
        by (subst squaring_loop.simps) auto
    next
      case miss: False
      from "1.IH" [OF True step miss \<open>v \<noteq> 0\<close>] True step miss show ?thesis
        by (subst squaring_loop.simps) auto
    qed
  qed
qed

lemma witness_check_total:
  assumes "v \<noteq> 0" "pwr < MaxBits"
  shows "\<exists>r. witness_check v pwr = Inr r"
proof -
  obtain s where "BinPower 2 (v sdiv 2 ^ pwr) v = Inr s"
    using BinPower_total [OF assms(1)] by blast
  then show ?thesis
    using assms squaring_loop_total [of v 1 pwr s]
    by (auto simp: witness_check_def divide_def shift_left_u_one)
qed

lemma even_truncate_bits: "even (truncate_bits x) \<longleftrightarrow> even x"
proof -
  have "(2::int) dvd 2 ^ MaxBits"
    by (simp add: MaxBits_def)
  then have "even (\<bar>x\<bar> mod 2 ^ MaxBits) \<longleftrightarrow> even \<bar>x\<bar>"
    by (rule dvd_mod_iff)
  then show ?thesis
    by (cases "x = 0") (simp_all add: truncate_bits_def sgn_if)
qed

lemma even_smod: "even m \<Longrightarrow> even (a smod m) \<longleftrightarrow> even (a::int)"
proof -
  assume "even m"
  then have "(2::int) dvd \<bar>m\<bar>" by simp
  then have "even (\<bar>a\<bar> mod \<bar>m\<bar>) \<longleftrightarrow> even \<bar>a\<bar>"
    by (rule dvd_mod_iff)
  then show ?thesis
    by (cases "a = 0") (simp_all add: signed_modulo_int_def sgn_if)
qed

lemma BinPower_even:
  assumes "even b" "even md" "md \<noteq> 0"
  shows "k \<noteq> 0 \<Longrightarrow> \<exists>s. BinPower b k md = Inr s \<and> even s"
proof (induction "nat \<bar>k\<bar>" arbitrary: k rule: less_induct)
  case less
  obtain v where v: "BinPower b (k sdiv 2) md = Inr v"
    using BinPower_total [OF \<open>md \<noteq> 0\<close>] by blast
  show ?case
  proof (cases "k sdiv 2 = 0")
    case True
    with \<open>k \<noteq> 0\<close> have "k smod 2 \<noteq> 0"
      using sdiv_mult_smod_eq [of k 2] by auto
    with \<open>k \<noteq> 0\<close> v assms show ?thesis
      by (subst BinPower.simps) (simp add: modulo_def even_smod mul_def even_truncate_bits)
  next
    case False
    have "\<bar>k\<bar> div 2 < \<bar>k\<bar>"
      using \<open>k \<noteq> 0\<close> by simp
    then have "nat \<bar>k sdiv 2\<bar> < nat \<bar>k\<bar>"
      by (simp add: signed_divide_int_def abs_mult)
    from less.hyps [OF this False] v have "even v"
      by auto
    with \<open>k \<noteq> 0\<close> v assms show ?thesis
      by (subst BinPower.simps) (simp add: modulo_def even_smod mul_def even_truncate_bits)
  qed
qed

lemma even_pred_in_range:
  assumes "even v" "in_range v"
  shows "\<bar>v - 1\<bar> < 2 ^ MaxBits"
proof -
  define L :: int where "L = 2 ^ MaxBits"
  have "even L"
    by (simp add: L_def MaxBits_def)
  moreover have "\<bar>v\<bar> < L"
    using assms by (simp add: in_range_def L_def)
  ultimately have "\<bar>v - 1\<bar> < L"
    using \<open>even v\<close> by presburger
  then show ?thesis
    by (simp add: L_def)
qed

lemma IsPrime_even:
  assumes "even v" "in_range v" "\<not> trial_division primes v"
  shows "IsPrime v = Some (witness_check v 0) \<and> (\<exists>s. BinPower 2 v v = Inr s)
     \<and> witness_check v 0 = Inr False"
proof -
  have "v \<noteq> 0"
    using assms(3) by (auto simp: primes_def)
  have r: "\<bar>v - 1\<bar> < 2 ^ MaxBits" "\<bar>v - 1 + 1\<bar> < 2 ^ MaxBits"
    using assms even_pred_in_range by (simp_all add: in_range_def)
  then have s1: "sub v 1 = v - 1" and a1: "add (v - 1) 1 = v"
    by (simp_all add: sub_exact add_exact)
  have scan: "scan_power (v - 1) 0 = Some 0"
    using assms(1) by (intro scan_power_odd) simp
  obtain s where s: "BinPower 2 v v = Inr s" "even s"
    using BinPower_even [of 2 v v] assms(1) \<open>v \<noteq> 0\<close> by auto
  with assms(1) have "s \<noteq> 1" "s \<noteq> v - 1"
    by auto
  with s have "witness_check v 0 = Inr False"
    by (simp add: witness_check_def divide_def shift_left_u_def truncate_bits_small s1
        squaring_loop.simps)
  moreover have "IsPrime v = Some (witness_check v 0)"
    using assms(3) by (simp add: IsPrime_def s1 a1 scan)
  ultimately show ?thesis
    using s by simp
qed


section \<open>The extended Euclidean algorithm stays in range\<close>

lemma ExtendedEuclidian_zero: "ExtendedEuclidian 0 phi = (0, 1)"
  by (simp add: ExtendedEuclidian.simps)

lemma ExtendedEuclidian_bezout_pos:
  assumes "phi < 2 ^ MaxBits"
  shows "0 < e \<Longrightarrow> 0 \<le> phi \<Longrightarrow> e < 2 ^ MaxBits \<Longrightarrow>
     (case ExtendedEuclidian e phi of (x, y) \<Rightarrow>
        e * x + phi * y = gcd e phi \<and> \<bar>x\<bar> \<le> max 1 phi \<and> \<bar>y\<bar> \<le> e)"
  using assms
proof (induction e phi rule: ExtendedEuclidian.induct)
  case (1 e phi)
  define r where "r = phi mod e"
  define d where "d = phi div e"
  obtain x1 y1 where rec: "ExtendedEuclidian r e = (x1, y1)"
    by (cases "ExtendedEuclidian r e")
  have r: "0 \<le> r" "r < e" and d: "0 \<le> d" and phi: "phi = d * e + r"
    using 1 by (simp_all add: r_def d_def pos_imp_zdiv_nonneg_iff)
  have sm: "phi smod e = r" "phi sdiv e = d"
    using 1 by (simp_all add: smod_nonneg sdiv_nonneg r_def d_def)
  have g: "gcd r e = gcd e phi"
    unfolding r_def by (metis gcd.commute gcd_red_int)
  have inner: "r * x1 + e * y1 = gcd e phi \<and> \<bar>d * x1\<bar> \<le> phi \<and> \<bar>y1 - d * x1\<bar> \<le> max 1 phi
      \<and> \<bar>x1\<bar> \<le> e"
  proof (cases "r = 0")
    case True
    with rec have "x1 = 0" "y1 = 1"
      by (simp_all add: ExtendedEuclidian_zero)
    with True g 1 show ?thesis by simp
  next
    case False
    with r have "0 < r" by simp
    have "e \<noteq> 0" "0 < phi smod e" "0 \<le> e" "phi smod e < 2 ^ MaxBits" "e < 2 ^ MaxBits"
      using r 1 \<open>0 < r\<close> by (simp_all add: sm)
    from "1.IH" [OF this] rec
    have IH: "r * x1 + e * y1 = gcd r e" "\<bar>x1\<bar> \<le> max 1 e" "\<bar>y1\<bar> \<le> r"
      by (simp_all add: sm)
    then have x1: "\<bar>x1\<bar> \<le> e"
      using 1 by simp
    have "\<bar>d * x1\<bar> = d * \<bar>x1\<bar>"
      using d by (simp add: abs_mult)
    also have "\<dots> \<le> d * e"
      using d x1 by (rule mult_left_mono [rotated])
    finally have dx: "\<bar>d * x1\<bar> \<le> d * e" .
    then have "\<bar>y1 - d * x1\<bar> \<le> r + d * e"
      using IH(3) by linarith
    with dx r IH x1 g show ?thesis
      by (simp add: phi)
  qed
  moreover have "(1::int) < 2 ^ MaxBits"
    by (simp add: MaxBits_def)
  ultimately have small: "\<bar>d * x1\<bar> < 2 ^ MaxBits" "\<bar>y1 - d * x1\<bar> < 2 ^ MaxBits"
    using \<open>phi < 2 ^ MaxBits\<close> by linarith+
  have m: "mul d x1 = d * x1"
    using small by (simp add: mul_def truncate_bits_id)
  have s: "sub y1 (d * x1) = y1 - d * x1"
    using small by (simp add: sub_exact)
  have res: "ExtendedEuclidian e phi = (y1 - d * x1, x1)"
    using 1 rec by (subst ExtendedEuclidian.simps) (simp add: sm m s)
  have "e * (y1 - d * x1) + phi * x1 = r * x1 + e * y1"
    by (simp add: phi algebra_simps)
  with inner show ?case
    by (simp add: res)
qed


section \<open>Candidates and the generation loop\<close>

lemma small_limit: "v < 2 ^ 64 \<Longrightarrow> v < (2::int) ^ MaxBits"
  using limit_ge_64 by simp

lemma GetRandBits_loop_bound:
  assumes "bits \<le> int MaxBits"
  shows "0 \<le> i \<Longrightarrow> 0 \<le> v \<Longrightarrow> v < 2 ^ nat bits \<Longrightarrow>
     0 \<le> GetRandBits_loop i bits coins pos v \<and> GetRandBits_loop i bits coins pos v < 2 ^ nat bits"
  using assms
proof (induction i bits coins pos v rule: GetRandBits_loop.induct)
  case (1 i bits coins pos v)
  show ?case
  proof (cases "i < bits")
    case False
    with 1 show ?thesis
      by (subst (1 2) GetRandBits_loop.simps) simp
  next
    case True
    define v' where "v' = (if coins pos AND 1 = 0 then v OR shift_left_u 1 (nat i) else v)"
    have i: "nat i < MaxBits" "nat i < nat bits"
      using True 1 by simp_all
    then have "(2::int) ^ nat i < 2 ^ nat bits"
      by (intro power_strict_increasing) simp_all
    then have "v OR shift_left_u 1 (nat i) < 2 ^ nat bits"
      using 1 i by (intro OR_upper) (simp_all add: shift_left_u_one)
    moreover have "0 \<le> v OR shift_left_u 1 (nat i)"
      using 1 i by (simp add: shift_left_u_one)
    ultimately have v': "0 \<le> v'" "v' < 2 ^ nat bits"
      using 1 by (simp_all add: v'_def)
    have "0 \<le> i + 1"
      using 1 by simp
    from "1.IH" [OF True this] v' 1
    have "0 \<le> GetRandBits_loop (i + 1) bits coins (pos + 1) v'"
      "GetRandBits_loop (i + 1) bits coins (pos + 1) v' < 2 ^ nat bits"
      by (simp_all add: v'_def)
    with True show ?thesis
      by (subst (1 2) GetRandBits_loop.simps) (simp add: v'_def)
  qed
qed

lemma GetRandBits_bound:
  "bits \<le> int MaxBits \<Longrightarrow>
     0 \<le> GetRandBits bits coins pos \<and> GetRandBits bits coins pos < 2 ^ nat bits"
  unfolding GetRandBits_def by (rule GetRandBits_loop_bound) simp_all



lemma FPrime_loop_result:
  assumes "FPrime_loop bits e msk coins pos = Some (Inr v)"
  shows "\<exists>pos'. v = GetRandBits bits coins pos' OR msk
      \<and> (\<exists>r. modulo v e = Inr r \<and> r \<noteq> 1) \<and> IsPrime v = Some (Inr True)"
proof -
  have "FPrime_loop bits e msk coins pos = Some y \<Longrightarrow>
      \<forall>v. y = Inr v \<longrightarrow> (\<exists>pos'. v = GetRandBits bits coins pos' OR msk
        \<and> (\<exists>r. modulo v e = Inr r \<and> r \<noteq> 1) \<and> IsPrime v = Some (Inr True))" for y
  proof (rule FPrime_loop.raw_induct [where P = "\<lambda>bits e msk coins pos y.
      \<forall>v. y = Inr v \<longrightarrow> (\<exists>pos'. v = GetRandBits bits coins pos' OR msk
        \<and> (\<exists>r. modulo v e = Inr r \<and> r \<noteq> 1) \<and> IsPrime v = Some (Inr True))"],
      goal_cases)
    case (1 f bits e msk coins pos y)
    show ?case
    proof (intro allI impI)
      fix v
      assume y: "y = Inr v"
      define c where "c = GetRandBits bits coins pos OR msk"
      from 1 have step: "(case modulo c e of
          Inl err \<Rightarrow> Some (Inl err)
        | Inr r \<Rightarrow>
            if r \<noteq> 1 then
              (case IsPrime c of
                 None \<Rightarrow> None
               | Some (Inl err) \<Rightarrow> Some (Inl err)
               | Some (Inr accepted) \<Rightarrow>
                   if accepted then Some (Inr c)
                   else f bits e msk coins (pos + nat bits))
            else f bits e msk coins (pos + nat bits)) = Some (Inr v)"
        by (simp only: c_def Let_def y)
      show "\<exists>pos'. v = GetRandBits bits coins pos' OR msk
          \<and> (\<exists>r. modulo v e = Inr r \<and> r \<noteq> 1) \<and> IsPrime v = Some (Inr True)"
      proof (cases "f bits e msk coins (pos + nat bits) = Some (Inr v)")
        case True
        with 1 show ?thesis by blast
      next
        case False
        with step have "v = c \<and> (\<exists>r. modulo c e = Inr r \<and> r \<noteq> 1) \<and> IsPrime c = Some (Inr True)"
          by (auto split: sum.splits option.splits if_splits)
        then show ?thesis
          unfolding c_def by blast
      qed
    qed
  qed
  with assms show ?thesis by blast
qed

lemma BinPower_2_16: "BinPower 2 16 1000000000 = Inr 65536"
proof -
  have "(999999999::int) * 999999999 < 2 ^ 64" "(999999999::int) * 2 < 2 ^ 64"
    by simp_all
  then have "(1000000000 - 1) * (1000000000 - 1) < (2::int) ^ MaxBits"
    "(1000000000 - 1) * 2 < (2::int) ^ MaxBits"
    using limit_ge_64 by simp_all
  then have "BinPower 2 (int 16) 1000000000 = Inr (2 ^ 16 mod 1000000000)"
    by (intro BinPower_exact_nat) simp_all
  then show ?thesis by simp
qed

lemma FPrime_unfold:
  assumes "2 \<le> bits" "bits \<le> int MaxBits"
  shows "FPrime bits coins = FPrime_loop bits 65537 (3 * 2 ^ nat (bits - 2) OR 1) coins 0"
proof -
  have eq: "nat bits = nat (bits - 2) + 2"
    using assms(1) by simp
  have "(3::int) * 2 ^ nat (bits - 2) < 2 ^ nat bits"
    unfolding eq by (simp add: power_add)
  also have "\<dots> \<le> 2 ^ MaxBits"
    using assms(2) by (intro power_increasing) simp_all
  finally have "shift_left 3 (bits - 2) = Inr (3 * 2 ^ nat (bits - 2))"
    using assms(1) by (simp add: shift_left_def truncate_bits_id)
  then show ?thesis
    by (simp add: FPrime_def BinPower_2_16 add_def truncate_bits_small)
qed

lemma FPrime_short: "bits < 2 \<Longrightarrow> FPrime bits coins = Some (Inl NegativeShift)"
  by (simp add: FPrime_def BinPower_2_16 shift_left_def)


lemma FPrime_candidate:
  fixes bits :: int and coins :: "nat \<Rightarrow> int" and pos :: nat
  assumes "2 \<le> bits" "bits \<le> int MaxBits"
  defines "v \<equiv> GetRandBits bits coins pos OR (3 * 2 ^ nat (bits - 2) OR 1)"
  shows "odd v \<and> bit v (nat bits - 1) \<and> bit v (nat bits - 2)
     \<and> 2 ^ (nat bits - 1) \<le> v \<and> v < 2 ^ nat bits"
proof -
  define k where "k = nat (bits - 2)"
  define g where "g = GetRandBits bits coins pos"
  have b: "nat bits = k + 2" "nat bits - 1 = k + 1" "nat bits - 2 = k"
    using assms(1) by (simp_all add: k_def)
  have g: "0 \<le> g" "g < 2 ^ nat bits"
    using GetRandBits_bound [OF assms(2)] by (simp_all add: g_def)
  have "(1::int) < 2 ^ (k + 2)"
    by (rule one_less_power) simp_all
  then have m: "(3::int) * 2 ^ k < 2 ^ nat bits" "(1::int) < 2 ^ nat bits"
    by (simp_all add: b)
  have v: "v = g OR (3 * 2 ^ k OR 1)"
    by (simp add: v_def g_def k_def)
  have "(3::int) * 2 ^ k \<le> 3 * 2 ^ k OR 1"
    by (rule or_greater_eq) simp
  also have "\<dots> \<le> (3 * 2 ^ k OR 1) OR g"
    using g by (intro or_greater_eq) simp
  finally have low3: "(3::int) * 2 ^ k \<le> v"
    by (simp add: v or.commute)
  have "3 * 2 ^ k OR 1 < (2::int) ^ nat bits"
    using m by (rule OR_upper [rotated 1]) simp
  with g have upper: "v < 2 ^ nat bits"
    unfolding v by (rule OR_upper)
  then have up4: "v < 4 * 2 ^ k"
    by (simp add: b)
  have "(2::int) ^ (k + 1) \<le> 3 * 2 ^ k"
    by simp
  then have low2: "2 ^ (k + 1) \<le> v"
    using low3 by (rule order_trans)
  have "odd v"
    by (simp add: v even_or_iff)
  moreover have "v div 2 ^ k = 3"
    using low3 up4 by (intro int_div_pos_eq [where r = "v - 3 * 2 ^ k"]) simp_all
  then have "bit v k"
    by (simp add: bit_iff_odd)
  moreover have "v div 2 ^ (k + 1) = 1"
    using low2 up4 by (intro int_div_pos_eq [where r = "v - 2 ^ (k + 1)"]) simp_all
  then have "bit v (k + 1)"
    by (simp add: bit_iff_odd)
  ultimately show ?thesis
    using upper low2 by (simp add: b)
qed

lemma IsPrime_unfold:
  assumes "\<not> trial_division primes v" and "v - 1 = 2 ^ pwr * q" and "odd q"
    and "1 < v" and "v < 2 ^ MaxBits"
  shows "IsPrime v = Some (witness_check v pwr)"
proof -
  have s1: "sub v 1 = v - 1" and a1: "add (v - 1) 1 = v"
    using assms(4,5) by (simp_all add: sub_exact add_exact)
  have "0 < q"
  proof (rule ccontr)
    assume "\<not> 0 < q"
    then have "2 ^ pwr * q \<le> 0" by (simp add: mult_le_0_iff)
    with assms(2,4) show False by simp
  qed
  moreover have "2 ^ pwr * q < (2::int) ^ MaxBits"
    using assms(2,5) by simp
  ultimately have "pwr < MaxBits"
    by (rule exp_less_limit)
  with assms(2,3) have "scan_power (v - 1) 0 = Some pwr"
    by (rule scan_power_step) simp
  with assms(1) show ?thesis
    by (simp add: IsPrime_def s1 a1)
qed


lemma IsPrime_53: "IsPrime 53 = Some (Inr True)"
proof -
  have "IsPrime 53 = Some (witness_check 53 2)"
    by (rule IsPrime_unfold [where q = 13])
      (simp_all add: primes_def signed_modulo_int_def small_limit)
  also have "witness_check 53 2 = Inr True"
    by (simp add: eval_simps)
  finally show ?thesis .
qed








section \<open>Primes, Fermat's little theorem and the RSA exponents\<close>

lemma is_prime_gt_1: "is_prime p \<Longrightarrow> 1 < p"
  by (simp add: is_prime_def)

lemma is_prime_divisor:
  assumes "is_prime p" "d dvd p" "0 < d"
  shows "d = 1 \<or> d = p"
proof -
  have "d \<le> p"
    using assms is_prime_gt_1 [of p] by (intro zdvd_imp_le) simp_all
  with assms show ?thesis
    unfolding is_prime_def by (cases "d = 1"; cases "d = p") auto
qed

lemma is_prime_coprime:
  assumes "is_prime p" "\<not> p dvd a"
  shows "coprime p a"
proof -
  have "gcd p a dvd p" "0 < gcd p a"
    using assms is_prime_gt_1 [of p] by (simp_all add: gcd_pos_int)
  with assms(1) have "gcd p a = 1 \<or> gcd p a = p"
    by (intro is_prime_divisor)
  moreover have "gcd p a \<noteq> p"
    using assms(2) by (metis gcd_dvd2)
  ultimately show ?thesis
    by (simp add: coprime_iff_gcd_eq_1)
qed

lemma is_prime_dvd_mult:
  assumes "is_prime p" "p dvd a * b"
  shows "p dvd a \<or> p dvd b"
proof (cases "p dvd a")
  case False
  with assms(1) have "coprime p a"
    by (rule is_prime_coprime)
  with assms(2) show ?thesis
    by (simp add: coprime_dvd_mult_right_iff)
qed simp

lemma is_prime_distinct_coprime:
  assumes "is_prime p" "is_prime q" "p \<noteq> q"
  shows "coprime p q"
proof (rule is_prime_coprime [OF assms(1)])
  show "\<not> p dvd q"
    using is_prime_divisor [OF assms(2), of p] is_prime_gt_1 [OF assms(1)] assms(3) by auto
qed

lemma is_prime_dvd_binomial:
  assumes "is_prime (int n)" "0 < k" "k < n"
  shows "int n dvd int (n choose k)"
proof -
  obtain n' k' where n: "n = Suc n'" and k: "k = Suc k'"
    using assms(2,3) by (cases n; cases k) simp_all
  have "Suc k' * (Suc n' choose Suc k') = Suc n' * (n' choose k')"
    using binomial_absorption [of k' "Suc n'"] by (simp only: diff_Suc_1)
  then have "int (Suc k' * (Suc n' choose Suc k')) = int (Suc n' * (n' choose k'))"
    by (simp only:)
  then have "int k * int (n choose k) = int n * int (n' choose k')"
    unfolding n k by (simp only: of_nat_mult)
  then have "int n dvd int k * int (n choose k)"
    by simp
  moreover have "\<not> int n dvd int k"
    using assms(2,3) by (auto dest: zdvd_imp_le)
  ultimately show ?thesis
    using is_prime_dvd_mult [OF assms(1)] by blast
qed

lemma fermat_step:
  assumes "is_prime (int n)"
  shows "int n dvd (a + 1) ^ n - a ^ n - (1::int)"
proof -
  obtain n' where n: "n = Suc n'"
    using is_prime_gt_1 [OF assms] by (cases n) simp_all
  define f where "f k = int (n choose k) * a ^ k" for k
  have "(a + 1) ^ n = (\<Sum>k\<le>n. f k)"
    by (simp add: binomial_ring f_def)
  also have "\<dots> = (\<Sum>k\<le>n'. f k) + f n"
    by (simp add: n)
  also have "(\<Sum>k\<le>n'. f k) = f 0 + (\<Sum>k<n'. f (Suc k))"
    by (rule sum.atMost_shift)
  finally have "(a + 1) ^ n - a ^ n - 1 = (\<Sum>k<n'. f (Suc k))"
    by (simp add: f_def)
  moreover have "int n dvd (\<Sum>k<n'. f (Suc k))"
  proof (rule dvd_sum)
    fix k assume "k \<in> {..<n'}"
    then have "int n dvd int (n choose Suc k)"
      using assms by (intro is_prime_dvd_binomial) (simp_all add: n)
    then show "int n dvd f (Suc k)"
      unfolding f_def by (rule dvd_mult2)
  qed
  ultimately show ?thesis by simp
qed

lemma fermat_little:
  assumes "is_prime (int n)"
  shows "int n dvd int a ^ n - int a"
proof (induction a)
  case 0
  have "n \<noteq> 0"
    using is_prime_gt_1 [OF assms] by simp
  then show ?case
    by (simp add: power_0_left)
next
  case (Suc a)
  have "int n dvd ((int a + 1) ^ n - int a ^ n - 1) + (int a ^ n - int a)"
    using fermat_step [OF assms, of "int a"] Suc by (rule dvd_add)
  moreover have "((int a + 1) ^ n - int a ^ n - 1) + (int a ^ n - int a)
      = (int a + 1) ^ n - (int a + 1)"
    by simp
  moreover have "int (Suc a) = int a + 1"
    by simp
  ultimately show ?case
    by (simp only:)
qed

lemma fermat_exponent:
  assumes "is_prime p" "0 \<le> m"
  shows "p dvd m ^ (1 + k * (nat p - 1)) - m"
proof (cases "p dvd m")
  case True
  then show ?thesis by simp
next
  case False
  define n where "n = nat p"
  have p: "p = int n" "is_prime (int n)" "1 < n"
    using assms is_prime_gt_1 [of p] by (simp_all add: n_def)
  define x where "x = m ^ (n - 1)"
  have "int n dvd int (nat m) ^ n - int (nat m)"
    by (rule fermat_little [OF p(2)])
  then have "p dvd m ^ n - m"
    using assms(2) p by simp
  also have "m ^ n - m = m * (x - 1)"
    using p(3) by (simp add: x_def algebra_simps flip: power_Suc)
  finally have "p dvd x - 1"
    using is_prime_dvd_mult [OF assms(1)] False by blast
  then have "p dvd (x - 1) * (\<Sum>i<k. x ^ i)"
    by (rule dvd_mult2)
  then have "p dvd x ^ k - 1"
    by (simp add: power_diff_1_eq)
  then have "p dvd m * (x ^ k - 1)"
    by (rule dvd_mult)
  also have "x ^ k = m ^ (k * (n - 1))"
    unfolding x_def by (subst mult.commute) (rule power_mult [symmetric])
  also have "m * (m ^ (k * (n - 1)) - 1) = m ^ (1 + k * (n - 1)) - m"
    by (simp add: right_diff_distrib)
  finally show ?thesis
    by (simp add: n_def)
qed

lemma rsa_exponents:
  assumes "is_prime p" "is_prime q" "p \<noteq> q" "0 \<le> m" "m < p * q"
    and "0 < e" "0 < d" "(e * d) mod ((p - 1) * (q - 1)) = 1"
  shows "m ^ (nat e * nat d) mod (p * q) = m"
proof -
  define t where "t = nat ((e * d) div ((p - 1) * (q - 1)))"
  have pq: "1 < p" "1 < q"
    using assms(1,2) by (simp_all add: is_prime_gt_1)
  then have phi: "0 < (p - 1) * (q - 1)"
    by simp
  have "0 \<le> (e * d) div ((p - 1) * (q - 1))"
    using assms(6,7) phi by (simp add: pos_imp_zdiv_nonneg_iff)
  then have "e * d = 1 + int t * ((p - 1) * (q - 1))"
    using assms(8) mult_div_mod_eq [of "(p - 1) * (q - 1)" "e * d"] by (simp add: t_def mult.commute)
  then have "int (nat e * nat d) = int (1 + t * ((nat p - 1) * (nat q - 1)))"
    using assms(6,7) pq by (simp add: nat_mult_distrib of_nat_diff)
  then have ed: "nat e * nat d = 1 + t * ((nat p - 1) * (nat q - 1))"
    by (simp only: of_nat_eq_iff)
  have "nat e * nat d = 1 + (t * (nat q - 1)) * (nat p - 1)"
    unfolding ed by (simp add: mult_ac)
  then have 1: "p dvd m ^ (nat e * nat d) - m"
    using fermat_exponent [OF assms(1,4)] by simp
  have "nat e * nat d = 1 + (t * (nat p - 1)) * (nat q - 1)"
    unfolding ed by (simp add: mult_ac)
  then have 2: "q dvd m ^ (nat e * nat d) - m"
    using fermat_exponent [OF assms(2,4)] by simp
  have "p * q dvd m ^ (nat e * nat d) - m"
    using 1 2 is_prime_distinct_coprime [OF assms(1-3)] by (rule divides_mult)
  then have "(m ^ (nat e * nat d) - m) mod (p * q) = 0"
    by simp
  then have "m ^ (nat e * nat d) mod (p * q) = m mod (p * q)"
    by (metis mod_eq_dvd_iff dvd_eq_mod_eq_0)
  with assms(4,5) show ?thesis
    by simp
qed

lemma prime_61: "is_prime 61"
  by code_simp

lemma prime_53: "is_prime 53"
  by code_simp

lemma prime_3109: "is_prime 3109"
  by code_simp

lemma prime_3271: "is_prime 3271"
  by code_simp

section \<open>The key generation loop\<close>

lemma IsPrime_total:
  assumes "2 \<le> v" "v < 2 ^ MaxBits"
  shows "\<exists>r. IsPrime v = Some (Inr r)"
proof -
  from assms have s1: "sub v 1 = v - 1" and a1: "add (v - 1) 1 = v"
    by (simp_all add: sub_exact add_exact)
  from assms obtain k q where kq: "v - 1 = 2 ^ k * q" "odd q" "0 < q"
    using two_power_decomp [of "v - 1"] by auto
  with assms have k: "k < MaxBits"
    by (intro exp_less_limit [of q k]) simp_all
  have scan: "scan_power (v - 1) 0 = Some k"
    using kq(1,2) k by (rule scan_power_step) simp
  obtain r where r: "witness_check v k = Inr r"
    using witness_check_total [of v k] assms k by auto
  show ?thesis
    by (auto simp: IsPrime_def s1 a1 scan r)
qed

lemma FPrime_loop_total:
  assumes "FPrime_loop bits e msk coins pos = Some y" and "e \<noteq> 0"
    and "\<And>pos. 2 \<le> GetRandBits bits coins pos OR msk
          \<and> GetRandBits bits coins pos OR msk < 2 ^ MaxBits"
  shows "\<exists>v. y = Inr v"
proof -
  have "FPrime_loop b e' m c pos = Some y \<Longrightarrow>
      b = bits \<longrightarrow> e' = e \<longrightarrow> m = msk \<longrightarrow> c = coins \<longrightarrow> (\<exists>v. y = Inr v)" for b e' m c pos y
  proof (rule FPrime_loop.raw_induct [where P = "\<lambda>b e' m c pos y.
      b = bits \<longrightarrow> e' = e \<longrightarrow> m = msk \<longrightarrow> c = coins \<longrightarrow> (\<exists>v. y = Inr v)"], goal_cases)
    case (1 f b e' m c pos y)
    show ?case
    proof (intro impI)
      assume eq: "b = bits" "e' = e" "m = msk" "c = coins"
      define cand where "cand = GetRandBits bits coins pos OR msk"
      obtain r where r: "IsPrime cand = Some (Inr r)"
        using IsPrime_total [of cand] assms(3) [of pos] by (auto simp: cand_def)
      from 1 have "(case modulo cand e of
          Inl err \<Rightarrow> Some (Inl err)
        | Inr r \<Rightarrow>
            if r \<noteq> 1 then
              (case IsPrime cand of
                 None \<Rightarrow> None
               | Some (Inl err) \<Rightarrow> Some (Inl err)
               | Some (Inr accepted) \<Rightarrow>
                   if accepted then Some (Inr cand)
                   else f bits e msk coins (pos + nat bits))
            else f bits e msk coins (pos + nat bits)) = Some y"
        by (simp only: cand_def Let_def eq)
      then have "y = Inr cand \<or> f bits e msk coins (pos + nat bits) = Some y"
        using assms(2) by (auto simp: modulo_def r split: if_splits)
      with 1 eq show "\<exists>v. y = Inr v"
        by blast
    qed
  qed
  with assms(1) show ?thesis by blast
qed

lemma FPrime_properties:
  assumes "FPrime bits coins = Some y" and "bits \<le> int MaxBits"
  shows "(bits < 2 \<and> y = Inl NegativeShift)
     \<or> (2 \<le> bits \<and> (\<exists>v. y = Inr v \<and> odd v \<and> bit v (nat bits - 1) \<and> bit v (nat bits - 2)
     \<and> 2 ^ (nat bits - 1) \<le> v \<and> v < 2 ^ nat bits
     \<and> (\<forall>p\<in>set primes. \<not> p dvd v)
     \<and> IsPrime v = Some (Inr True)
     \<and> (\<exists>pwr. scan_power (v - 1) 0 = Some pwr \<and> witness_check v pwr = Inr True)
     \<and> v mod 65537 \<noteq> 1))"
proof (cases "2 \<le> bits")
  case False
  with assms(1) show ?thesis
    by (simp add: FPrime_short)
next
  case bits: True
  let ?msk = "3 * 2 ^ nat (bits - 2) OR 1"
  have loop: "FPrime_loop bits 65537 ?msk coins 0 = Some y"
    using assms bits by (simp add: FPrime_unfold)
  have lim: "(2::int) ^ 1 \<le> 2 ^ (nat bits - 1)" "(2::int) ^ nat bits \<le> 2 ^ MaxBits"
    using bits assms(2) by (intro power_increasing; simp)+
  have cand: "2 \<le> GetRandBits bits coins pos OR ?msk
      \<and> GetRandBits bits coins pos OR ?msk < 2 ^ MaxBits" for pos
  proof -
    have "2 ^ (nat bits - 1) \<le> GetRandBits bits coins pos OR ?msk"
      "GetRandBits bits coins pos OR ?msk < 2 ^ nat bits"
      using FPrime_candidate [OF bits assms(2), of coins pos] by simp_all
    with lim show ?thesis
      by (simp only: power_one_right) linarith
  qed
  obtain v where y: "y = Inr v"
    using FPrime_loop_total [OF loop _ cand] by auto
  with loop obtain pos r where v: "v = GetRandBits bits coins pos OR ?msk"
    and r: "modulo v 65537 = Inr r" "r \<noteq> 1" and accepted: "IsPrime v = Some (Inr True)"
    using FPrime_loop_result by blast
  have shape: "odd v" "bit v (nat bits - 1)" "bit v (nat bits - 2)"
    "2 ^ (nat bits - 1) \<le> v" "v < 2 ^ nat bits"
    using FPrime_candidate [OF bits assms(2), of coins pos] by (simp_all add: v)
  have range: "2 \<le> v" "v < 2 ^ MaxBits"
    using cand [of pos] by (simp_all add: v)
  then have s1: "sub v 1 = v - 1" and a1: "add (v - 1) 1 = v"
    by (simp_all add: sub_exact add_exact)
  have filter: "\<not> trial_division primes v"
    using accepted by (auto simp: IsPrime_def)
  then have "\<forall>p\<in>set primes. \<not> p dvd v"
    by (simp add: trial_division_primes)
  moreover have "\<exists>pwr. scan_power (v - 1) 0 = Some pwr \<and> witness_check v pwr = Inr True"
    using accepted filter by (auto simp: IsPrime_def s1 a1 split: option.splits)
  moreover have "v mod 65537 \<noteq> 1"
    using r range by (simp add: modulo_def smod_nonneg)
  ultimately show ?thesis
    using shape accepted bits y by simp
qed

lemma to_int32_uint32: "- (2 ^ 31) \<le> n \<Longrightarrow> n < 2 ^ 31 \<Longrightarrow> to_int32 (to_uint32 n) = n"
proof -
  assume n: "- (2 ^ 31) \<le> n" "n < 2 ^ 31"
  have "(n mod 2 ^ 32 + 2 ^ 31) mod 2 ^ 32 = (n + 2 ^ 31) mod 2 ^ 32"
    by (rule mod_add_left_eq)
  also have "\<dots> = n + 2 ^ 31"
    using n by (intro mod_pos_pos_trivial) simp_all
  finally show ?thesis
    by (simp add: to_int32_def to_uint32_def)
qed

lemma GeneratePrime_int:
  "- (2 ^ 31) \<le> n \<Longrightarrow> n < 2 ^ 31 \<Longrightarrow> GeneratePrime (to_uint32 n) coins = FPrime n coins"
  by (simp add: GeneratePrime_def to_int32_uint32)

lemma exponent_loop_result:
  assumes "exponent_loop bitsCount phi seeds k openExp privateExp = Some y"
    and "privateExp < 0"
  shows "(\<exists>err k'. y = Inl err \<and> GeneratePrime (to_uint32 (min bitsCount 32)) (seeds k') = Some (Inl err)) \<or>
     (\<exists>e d k'. y = Inr (e, d) \<and> 0 \<le> d \<and> d = fst (ExtendedEuclidian e phi)
        \<and> GeneratePrime (to_uint32 (min bitsCount 32)) (seeds k') = Some (Inr e))"
proof -
  define good where "good e d \<longleftrightarrow> 0 \<le> d \<and> d = fst (ExtendedEuclidian e phi)
        \<and> (\<exists>k'. GeneratePrime (to_uint32 (min bitsCount 32)) (seeds k') = Some (Inr e))" for e d
  define bad where "bad err \<longleftrightarrow>
        (\<exists>k'. GeneratePrime (to_uint32 (min bitsCount 32)) (seeds k') = Some (Inl err))" for err
  have "exponent_loop b ph sd k oe pe = Some y \<Longrightarrow>
      b = bitsCount \<longrightarrow> ph = phi \<longrightarrow> sd = seeds \<longrightarrow> (0 \<le> pe \<longrightarrow> good oe pe) \<longrightarrow>
        (\<exists>err. y = Inl err \<and> bad err) \<or> (\<exists>e d. y = Inr (e, d) \<and> good e d)" for b ph sd k oe pe y
  proof (rule exponent_loop.raw_induct [where P = "\<lambda>b ph sd k oe pe y.
      b = bitsCount \<longrightarrow> ph = phi \<longrightarrow> sd = seeds \<longrightarrow> (0 \<le> pe \<longrightarrow> good oe pe) \<longrightarrow>
        (\<exists>err. y = Inl err \<and> bad err) \<or> (\<exists>e d. y = Inr (e, d) \<and> good e d)"], goal_cases)
    case (1 f b ph sd k oe pe y)
    show ?case
    proof (intro impI)
      assume eq: "b = bitsCount" "ph = phi" "sd = seeds" and inv: "0 \<le> pe \<longrightarrow> good oe pe"
      show "(\<exists>err. y = Inl err \<and> bad err) \<or> (\<exists>e d. y = Inr (e, d) \<and> good e d)"
      proof (cases "pe < 0")
        case False
        with 1 inv show ?thesis
          by auto
      next
        case True
        show ?thesis
        proof (cases "GeneratePrime (to_uint32 (min b 32)) (sd k)")
          case None
          with 1 True show ?thesis by simp
        next
          case (Some r)
          show ?thesis
          proof (cases r)
            case (Inl err)
            with 1 True Some eq show ?thesis by (auto simp: bad_def)
          next
            case (Inr e')
            define d' where "d' = fst (ExtendedEuclidian e' ph)"
            from 1 True Some Inr have "f b ph sd (k + 1) e' d' = Some y"
              by (simp add: d'_def Let_def)
            moreover have "0 \<le> d' \<longrightarrow> good e' d'"
              using Some Inr eq by (auto simp: good_def d'_def)
            ultimately show ?thesis
              using 1 eq by blast
          qed
        qed
      qed
    qed
  qed
  from this [OF assms(1)] assms(2) show ?thesis
    by (auto simp: good_def bad_def)
qed

lemma odd_bit_length_pred:
  assumes "odd p" "2 ^ (nat b - 1) \<le> p" "2 \<le> nat b"
  shows "(2::int) ^ (nat b - 1) \<le> p - 1"
proof -
  obtain k where k: "nat b - 1 = Suc k"
    using assms(3) by (cases "nat b - 1") simp_all
  then have "even ((2::int) ^ (nat b - 1))"
    by simp
  with assms(1) have "p \<noteq> 2 ^ (nat b - 1)"
    by auto
  with assms(2) show ?thesis
    by simp
qed

lemma IsPrime_4033: "IsPrime 4033 = Some (Inr True)"
proof -
  have "IsPrime 4033 = Some (witness_check 4033 6)"
    by (rule IsPrime_unfold [where q = 63])
      (simp_all add: primes_def signed_modulo_int_def small_limit)
  also have "witness_check 4033 6 = Inr True"
    by (simp add: eval_simps)
  finally show ?thesis .
qed

lemma IsPrime_61: "IsPrime 61 = Some (Inr True)"
proof -
  have "IsPrime 61 = Some (witness_check 61 2)"
    by (rule IsPrime_unfold [where q = 15])
      (simp_all add: primes_def signed_modulo_int_def small_limit)
  also have "witness_check 61 2 = Inr True"
    by (simp add: eval_simps)
  finally show ?thesis .
qed

lemma FPrime_12: "FPrime 12 (\<lambda>i. if 6 \<le> i \<and> i \<le> 9 then 0 else 1) = Some (Inr 4033)"
proof -
  let ?coins = "\<lambda>i::nat. if 6 \<le> i \<and> i \<le> 9 then 0 else (1::int)"
  have g: "GetRandBits 12 ?coins 0 = 960"
    by (simp add: GetRandBits_def GetRandBits_loop.simps shift_left_u_def truncate_bits_small)
  have "FPrime 12 ?coins = FPrime_loop 12 65537 3073 ?coins 0"
    by (subst FPrime_unfold) (simp_all add: MaxBits_def)
  also have "\<dots> = Some (Inr 4033)"
    by (subst FPrime_loop.simps) (simp add: g modulo_def signed_modulo_int_def IsPrime_4033)
  finally show ?thesis .
qed

lemma FPrime_6_53: "FPrime 6 (\<lambda>i. if i = 2 then 0 else 1) = Some (Inr 53)"
proof -
  let ?coins = "\<lambda>i::nat. if i = 2 then 0 else (1::int)"
  have g: "GetRandBits 6 ?coins 0 = 4"
    by (simp add: GetRandBits_def GetRandBits_loop.simps shift_left_u_def truncate_bits_small)
  have "FPrime 6 ?coins = FPrime_loop 6 65537 49 ?coins 0"
    by (subst FPrime_unfold) (simp_all add: MaxBits_def)
  also have "\<dots> = Some (Inr 53)"
    by (subst FPrime_loop.simps) (simp add: g modulo_def signed_modulo_int_def IsPrime_53)
  finally show ?thesis .
qed

lemma FPrime_6_61: "FPrime 6 (\<lambda>i. if i = 2 \<or> i = 3 then 0 else 1) = Some (Inr 61)"
proof -
  let ?coins = "\<lambda>i::nat. if i = 2 \<or> i = 3 then 0 else (1::int)"
  have g: "GetRandBits 6 ?coins 0 = 12"
    by (simp add: GetRandBits_def GetRandBits_loop.simps shift_left_u_def truncate_bits_small)
  have "FPrime 6 ?coins = FPrime_loop 6 65537 49 ?coins 0"
    by (subst FPrime_unfold) (simp_all add: MaxBits_def)
  also have "\<dots> = Some (Inr 61)"
    by (subst FPrime_loop.simps) (simp add: g modulo_def signed_modulo_int_def IsPrime_61)
  finally show ?thesis .
qed

lemmas euclid_simps = ExtendedEuclidian.simps mul_def sub_def truncate_bits_small
  signed_divide_int_def signed_modulo_int_def

lemma GenerateRSAKeys_12:
  "GenerateRSAKeys 3109 3271 12 (\<lambda>k i. if 6 \<le> i \<and> i \<le> 9 then 0 else 1)
     = Some (Inr ([''Warning. Incorrect exps''], make_TRSAKeys 4033 1 (3109 * 3271)))"
proof -
  let ?seeds = "\<lambda>(k::nat) (i::nat). if 6 \<le> i \<and> i \<le> 9 then 0 else (1::int)"
  have ee: "ExtendedEuclidian 4033 10163160 = (1, 0)"
    by (simp add: euclid_simps)
  have "exponent_loop 12 10163160 ?seeds 0 0 (- 1) = exponent_loop 12 10163160 ?seeds 1 4033 1"
    by (subst exponent_loop.simps) (simp add: GeneratePrime_int FPrime_12 ee)
  also have "\<dots> = Some (Inr (4033, 1))"
    by (subst exponent_loop.simps) simp
  finally show ?thesis
    by (simp add: GenerateRSAKeys_def mul_def sub_def truncate_bits_small modulo_def
        signed_modulo_int_def)
qed

lemma GenerateRSAKeys_6:
  "GenerateRSAKeys 53 61 6
      (\<lambda>k i. if k = 0 then (if i = 2 then 0 else 1) else (if i = 2 \<or> i = 3 then 0 else 1))
     = Some (Inr ([], make_TRSAKeys 61 1381 3233))"
proof -
  let ?seeds = "\<lambda>(k::nat) (i::nat).
      if k = 0 then (if i = 2 then 0 else (1::int)) else (if i = 2 \<or> i = 3 then 0 else 1)"
  have s: "?seeds 0 = (\<lambda>i. if i = 2 then 0 else 1)" "?seeds 1 = (\<lambda>i. if i = 2 \<or> i = 3 then 0 else 1)"
    by simp_all
  have ee: "ExtendedEuclidian 53 3120 = (- 883, 15)" "ExtendedEuclidian 61 3120 = (1381, - 27)"
    by (simp_all add: euclid_simps)
  have "exponent_loop 6 3120 ?seeds 0 0 (- 1) = exponent_loop 6 3120 ?seeds 1 53 (- 883)"
    by (subst exponent_loop.simps) (simp add: GeneratePrime_int s FPrime_6_53 ee)
  also have "\<dots> = exponent_loop 6 3120 ?seeds (1 + 1) 61 1381"
    by (subst exponent_loop.simps) (simp add: GeneratePrime_int s FPrime_6_61 ee)
  also have "\<dots> = Some (Inr (61, 1381))"
    by (subst exponent_loop.simps) simp
  finally show ?thesis
    by (simp add: GenerateRSAKeys_def mul_def sub_def truncate_bits_small modulo_def
        signed_modulo_int_def)
qed


section \<open>A prime between \<open>2 ^ k\<close> and \<open>2 ^ (2 * k)\<close>\<close>

text \<open>
  Keys whose modulus exceeds 2048 bits need a prime of more than 1024 bits. That such primes
  exist within the range of the integer type is shown here without computing one: were
  there no prime between \<open>2 ^ k\<close> and \<open>2 ^ (2 * k)\<close>, the central binomial coefficient of
  \<open>2 ^ (2 * k - 1)\<close> would be a product of at most \<open>2 ^ k + 1\<close> prime powers, each at most
  \<open>2 ^ (2 * k - 1)\<close>, which is less than its lower bound \<open>2 ^ (2 ^ (2 * k - 2))\<close>.
\<close>

lemma prime_nat_gt_1: "is_prime (int p) \<Longrightarrow> 1 < p"
  using is_prime_gt_1 [of "int p"] by simp

lemma prime_nat_dvd_mult:
  assumes "is_prime (int p)" "p dvd a * b"
  shows "p dvd a \<or> p dvd b"
proof -
  have "int p dvd int a * int b"
    using assms(2) by (metis of_nat_dvd_iff of_nat_mult)
  then have "int p dvd int a \<or> int p dvd int b"
    using assms(1) by (rule is_prime_dvd_mult [rotated])
  then show ?thesis
    by (simp add: of_nat_dvd_iff)
qed

lemma prime_nat_dvd_power:
  assumes "is_prime (int p)" "p dvd a ^ k"
  shows "p dvd a"
  using assms(2)
proof (induction k)
  case 0
  then show ?case
    using prime_nat_gt_1 [OF assms(1)] by simp
next
  case (Suc k)
  then show ?case
    using prime_nat_dvd_mult [OF assms(1), of a "a ^ k"] by auto
qed

lemma prime_divisor_exists:
  "2 \<le> n \<Longrightarrow> \<exists>p. is_prime (int p) \<and> p dvd (n::nat)"
proof (induction n rule: less_induct)
  case (less n)
  show ?case
  proof (cases "is_prime (int n)")
    case True
    then have "is_prime (int n) \<and> n dvd n" by simp
    then show ?thesis by blast
  next
    case False
    with less.prems obtain d where d: "d \<in> {2..<int n}" "d dvd int n"
      by (auto simp: is_prime_def)
    define m where "m = nat d"
    have m: "2 \<le> m" "m < n" "m dvd n"
      using d by (auto simp: m_def nat_dvd_iff nat_less_iff le_nat_iff)
    from less.IH [OF m(2) m(1)] obtain p where "is_prime (int p)" "p dvd m"
      by blast
    with m(3) show ?thesis
      by (meson dvd_trans)
  qed
qed

lemma power_part:
  fixes p n :: nat
  assumes "1 < p" "0 < n"
  shows "\<exists>j w. n = p ^ j * w \<and> \<not> p dvd w"
  using assms(2)
proof (induction n rule: less_induct)
  case (less n)
  show ?case
  proof (cases "p dvd n")
    case False
    then have "n = p ^ 0 * n \<and> \<not> p dvd n" by simp
    then show ?thesis by blast
  next
    case True
    then obtain m where m: "n = p * m" by (auto elim: dvdE)
    with less.prems assms(1) have "m < n" "0 < m"
      by simp_all
    from less.IH [OF this] obtain j w where "m = p ^ j * w" "\<not> p dvd w"
      by blast
    with m have "n = p ^ Suc j * w \<and> \<not> p dvd w" by simp
    then show ?thesis by blast
  qed
qed

lemma power_dvd_part:
  fixes p w :: nat
  assumes "1 < p" "\<not> p dvd w"
  shows "p ^ i dvd p ^ j * w \<longleftrightarrow> i \<le> j"
proof
  assume "i \<le> j"
  then have "p ^ i dvd p ^ j"
    by (rule le_imp_power_dvd)
  then show "p ^ i dvd p ^ j * w"
    by (rule dvd_mult2)
next
  assume d: "p ^ i dvd p ^ j * w"
  show "i \<le> j"
  proof (rule ccontr)
    assume "\<not> i \<le> j"
    then obtain k where i: "i = j + Suc k"
      by (metis add_Suc_right less_imp_Suc_add not_le)
    from d have "p ^ j * p ^ Suc k dvd p ^ j * w"
      by (simp add: i power_add)
    then have "p ^ Suc k dvd w"
      using assms(1) by simp
    then have "p dvd w"
      by (metis dvd_mult_left power_Suc)
    with assms(2) show False ..
  qed
qed

lemma less_power_prime:
  fixes p n :: nat
  assumes "1 < p"
  shows "n < p ^ n"
proof -
  have "n < 2 ^ n"
    by (rule less_exp)
  also have "(2::nat) ^ n \<le> p ^ n"
    using assms by (intro power_mono) simp_all
  finally show ?thesis .
qed

lemma sum_indicator_card:
  "finite A \<Longrightarrow> (\<Sum>i\<in>A. if P i then 1 else (0::nat)) = card {i \<in> A. P i}"
  by (simp add: sum.If_cases Int_def)

lemma legendre_step:
  fixes p n j w :: nat
  assumes "1 < p" "Suc n = p ^ j * w" "\<not> p dvd w"
  shows "(\<Sum>i = 1..Suc n. Suc n div p ^ i) = (\<Sum>i = 1..n. n div p ^ i) + j"
proof -
  have w: "0 < w"
    using assms(2) by (cases w) simp_all
  have "j < p ^ j"
    using assms(1) by (rule less_power_prime)
  also have "p ^ j \<le> p ^ j * w"
    using w by simp
  finally have j: "j \<le> Suc n"
    using assms(2) by simp
  have "{i \<in> {1..Suc n}. p ^ i dvd Suc n} = {1..j}"
    using j by (auto simp: assms(2) power_dvd_part [OF assms(1,3)])
  then have card: "card {i \<in> {1..Suc n}. p ^ i dvd Suc n} = j"
    by simp
  have "n < p ^ Suc n"
    using less_power_prime [OF assms(1), of "Suc n"] by simp
  then have last: "n div p ^ Suc n = 0"
    by simp
  have "(\<Sum>i = 1..Suc n. Suc n div p ^ i)
      = (\<Sum>i = 1..Suc n. n div p ^ i + (if p ^ i dvd Suc n then 1 else 0))"
    by (intro sum.cong refl) (simp add: div_Suc dvd_eq_mod_eq_0)
  also have "\<dots> = (\<Sum>i = 1..Suc n. n div p ^ i) + (\<Sum>i = 1..Suc n. if p ^ i dvd Suc n then 1 else 0)"
    by (rule sum.distrib)
  also have "(\<Sum>i = 1..Suc n. if p ^ i dvd Suc n then 1 else (0::nat)) = j"
    by (simp only: sum_indicator_card finite_atLeastAtMost card)
  also have "(\<Sum>i = 1..Suc n. n div p ^ i) = (\<Sum>i = 1..n. n div p ^ i)"
    using last by simp
  finally show ?thesis .
qed

lemma legendre:
  fixes p :: nat
  assumes "is_prime (int p)"
  shows "\<exists>u. fact n = p ^ (\<Sum>i = 1..n. n div p ^ i) * u \<and> \<not> p dvd u"
proof (induction n)
  case 0
  have "\<not> p dvd 1"
    using prime_nat_gt_1 [OF assms] by simp
  then show ?case by simp
next
  case (Suc n)
  have p: "1 < p"
    using assms by (rule prime_nat_gt_1)
  from Suc obtain u where u: "fact n = p ^ (\<Sum>i = 1..n. n div p ^ i) * u" "\<not> p dvd u"
    by blast
  obtain j w where jw: "Suc n = p ^ j * w" "\<not> p dvd w"
    using power_part [OF p, of "Suc n"] by auto
  have "fact (Suc n) = Suc n * fact n"
    by simp
  also have "\<dots> = p ^ ((\<Sum>i = 1..n. n div p ^ i) + j) * (w * u)"
    by (subst u(1), subst jw(1)) (simp add: power_add)
  also have "(\<Sum>i = 1..n. n div p ^ i) + j = (\<Sum>i = 1..Suc n. Suc n div p ^ i)"
    by (rule legendre_step [OF p jw, symmetric])
  finally have "fact (Suc n) = p ^ (\<Sum>i = 1..Suc n. Suc n div p ^ i) * (w * u)" .
  moreover have "\<not> p dvd w * u"
    using prime_nat_dvd_mult [OF assms, of w u] jw(2) u(2) by blast
  ultimately show ?case by blast
qed

lemma floor_power_exists:
  fixes p m :: nat
  assumes "1 < p" "0 < m"
  shows "\<exists>r. p ^ r \<le> m \<and> (\<forall>i. p ^ i \<le> m \<longrightarrow> i \<le> r)"
proof -
  define A where "A = {i. p ^ i \<le> m}"
  have "i \<le> m" if "i \<in> A" for i
    using less_power_prime [OF assms(1), of i] that by (simp add: A_def)
  then have "A \<subseteq> {..m}"
    by auto
  then have fin: "finite A"
    by (rule finite_subset) simp
  have ne: "A \<noteq> {}"
    using assms(2) by (auto simp: A_def intro: exI [of _ 0])
  have "Max A \<in> A"
    using fin ne by (rule Max_in)
  moreover have "i \<le> Max A" if "p ^ i \<le> m" for i
    using fin that by (intro Max_ge) (simp_all add: A_def)
  ultimately show ?thesis
    by (auto simp: A_def)
qed

lemma double_div:
  fixes n d :: nat
  shows "(2 * n) div d \<le> 2 * (n div d) + 1"
proof (cases "d = 0")
  case True
  then show ?thesis by simp
next
  case False
  have "n mod d < d"
    using False by simp
  moreover have "n = n div d * d + n mod d"
    by simp
  ultimately have "n < n div d * d + d"
    by linarith
  then have "2 * n < 2 * (n div d * d + d)"
    by simp
  also have "\<dots> = (2 * (n div d) + 2) * d"
    by (simp add: algebra_simps)
  finally have "2 * n < (2 * (n div d) + 2) * d" .
  then have "(2 * n) div d < 2 * (n div d) + 2"
    by (rule less_mult_imp_div_less)
  then show ?thesis by simp
qed

lemma legendre_double:
  fixes p n r :: nat
  assumes "1 < p" "\<forall>i. p ^ i \<le> 2 * n \<longrightarrow> i \<le> r"
  shows "(\<Sum>i = 1..2 * n. (2 * n) div p ^ i) \<le> 2 * (\<Sum>i = 1..n. n div p ^ i) + r"
proof -
  have zero: "n div p ^ i = 0" if "n < i" for i
    using less_power_prime [OF assms(1), of i] that by simp
  have "(\<Sum>i = 1..n. n div p ^ i) = (\<Sum>i = 1..2 * n. n div p ^ i)"
    by (rule sum.mono_neutral_left) (auto simp: zero)
  moreover have "(\<Sum>i = 1..2 * n. (2 * n) div p ^ i)
      \<le> (\<Sum>i = 1..2 * n. 2 * (n div p ^ i) + (if i \<le> r then 1 else 0))"
  proof (rule sum_mono)
    fix i
    show "(2 * n) div p ^ i \<le> 2 * (n div p ^ i) + (if i \<le> r then 1 else 0)"
    proof (cases "i \<le> r")
      case True
      then show ?thesis
        using double_div [of n "p ^ i"] by simp
    next
      case False
      with assms(2) have "2 * n < p ^ i"
        by (meson not_le)
      then show ?thesis
        by simp
    qed
  qed
  moreover have "(\<Sum>i = 1..2 * n. 2 * (n div p ^ i) + (if i \<le> r then 1 else 0))
      = 2 * (\<Sum>i = 1..2 * n. n div p ^ i) + card {i \<in> {1..2 * n}. i \<le> r}"
    by (simp add: sum.distrib sum_distrib_left sum_indicator_card)
  moreover have "card {i \<in> {1..2 * n}. i \<le> r} \<le> card {1..r}"
    by (rule card_mono) auto
  ultimately show ?thesis
    by simp
qed

lemma central_binomial_prime_power:
  fixes p n a :: nat
  assumes "is_prime (int p)" "0 < n" "p ^ a dvd (2 * n choose n)"
  shows "p ^ a \<le> 2 * n"
proof -
  have p: "1 < p"
    using assms(1) by (rule prime_nat_gt_1)
  obtain r where r: "p ^ r \<le> 2 * n" "\<forall>i. p ^ i \<le> 2 * n \<longrightarrow> i \<le> r"
    using floor_power_exists [OF p, of "2 * n"] assms(2) by auto
  define L where "L m = (\<Sum>i = 1..m. m div p ^ i)" for m
  obtain u where u: "fact n = p ^ L n * u"
    using legendre [OF assms(1), of n] unfolding L_def by blast
  obtain u2 where u2: "fact (2 * n) = p ^ L (2 * n) * u2" "\<not> p dvd u2"
    using legendre [OF assms(1), of "2 * n"] unfolding L_def by blast
  obtain b where b: "2 * n choose n = p ^ a * b"
    using assms(3) by (auto elim: dvdE)
  have "fact n * fact (2 * n - n) * (2 * n choose n) = (fact (2 * n) :: nat)"
    by (rule binomial_fact_lemma) simp
  then have "p ^ L n * u * (p ^ L n * u) * (p ^ a * b) = p ^ L (2 * n) * u2"
    by (simp add: u [symmetric] b [symmetric] u2(1) [symmetric])
  moreover have "p ^ (2 * L n + a) * (u * u * b) = p ^ L n * u * (p ^ L n * u) * (p ^ a * b)"
    by (simp add: power_add mult_2)
  ultimately have "p ^ (2 * L n + a) * (u * u * b) = p ^ L (2 * n) * u2"
    by (simp only:)
  then have "p ^ (2 * L n + a) dvd p ^ L (2 * n) * u2"
    by (metis dvd_triv_left)
  then have "2 * L n + a \<le> L (2 * n)"
    using power_dvd_part [OF p u2(2)] by simp
  moreover have "L (2 * n) \<le> 2 * L n + r"
    unfolding L_def using p r(2) by (rule legendre_double)
  ultimately have "a \<le> r"
    by simp
  then have "p ^ a \<le> p ^ r"
    using p by (intro power_increasing) simp_all
  with r(1) show ?thesis
    by simp
qed

lemma central_binomial_lower: "2 ^ n \<le> (2 * n choose n)"
proof (induction n)
  case 0
  then show ?case by simp
next
  case (Suc n)
  have "2 * (2 * n choose n) \<le> (Suc (2 * n) choose n) + (Suc (2 * n) choose Suc n)"
    by (cases n) (simp_all add: add_increasing2)
  also have "\<dots> = (2 * Suc n choose Suc n)"
    by simp
  finally show ?case
    using Suc by simp
qed

lemma smooth_bound:
  fixes K :: nat and S :: "nat set"
  assumes "finite S"
  shows "0 < m \<Longrightarrow> \<forall>p. is_prime (int p) \<and> p dvd m \<longrightarrow> p \<in> S \<Longrightarrow>
     \<forall>p\<in>S. 1 < p \<and> (\<forall>a. p ^ a dvd m \<longrightarrow> p ^ a \<le> K) \<Longrightarrow> m \<le> K ^ card S"
  using assms
proof (induction S arbitrary: m)
  case empty
  have "\<not> 2 \<le> m"
    using prime_divisor_exists [of m] empty.prems(2) by auto
  with empty.prems(1) show ?case
    by simp
next
  case (insert p S)
  have p: "1 < p" and pw: "\<And>a. p ^ a dvd m \<Longrightarrow> p ^ a \<le> K"
    using insert.prems(3) by auto
  obtain j w where jw: "m = p ^ j * w" "\<not> p dvd w"
    using power_part [OF p insert.prems(1)] by blast
  have w: "0 < w"
    using insert.prems(1) jw(1) by (cases w) simp_all
  have dvd: "w dvd m"
    by (simp add: jw(1))
  have "w \<le> K ^ card S"
  proof (rule insert.IH [OF w])
    show "\<forall>q. is_prime (int q) \<and> q dvd w \<longrightarrow> q \<in> S"
    proof (intro allI impI)
      fix q assume q: "is_prime (int q) \<and> q dvd w"
      then have "q dvd m"
        using dvd by (meson dvd_trans)
      with q insert.prems(2) have "q \<in> insert p S"
        by blast
      moreover have "q \<noteq> p"
        using q jw(2) by auto
      ultimately show "q \<in> S"
        by simp
    qed
    show "\<forall>q\<in>S. 1 < q \<and> (\<forall>a. q ^ a dvd w \<longrightarrow> q ^ a \<le> K)"
      using insert.prems(3) dvd by (meson dvd_trans insertI2)
  qed
  moreover have "p ^ j \<le> K"
    by (rule pw) (simp add: jw(1))
  ultimately have "p ^ j * w \<le> K * K ^ card S"
    by (rule mult_le_mono [rotated])
  then show ?case
    using insert.hyps by (simp add: jw(1))
qed

lemma prime_dvd_fact:
  fixes p :: nat
  assumes "is_prime (int p)"
  shows "p dvd fact m \<Longrightarrow> p \<le> m"
proof (induction m)
  case 0
  then show ?case
    using prime_nat_gt_1 [OF assms] by simp
next
  case (Suc m)
  then have "p dvd Suc m \<or> p dvd fact m"
    using prime_nat_dvd_mult [OF assms, of "Suc m" "fact m"] by simp
  then show ?case
  proof
    assume "p dvd Suc m"
    then show ?thesis
      by (rule dvd_imp_le) simp
  next
    assume "p dvd fact m"
    with Suc.IH show ?thesis
      by simp
  qed
qed

lemma linear_less_exp: "3 \<le> j \<Longrightarrow> j + 4 < 2 ^ j" for j :: nat
proof (induction j rule: dec_induct)
  case base
  show ?case by simp
next
  case (step j)
  then show ?case by simp
qed

lemma prime_between_powers:
  fixes k :: nat
  assumes "7 \<le> k"
  shows "\<exists>p. is_prime (int p) \<and> 2 ^ k < p \<and> p < 2 ^ (2 * k)"
proof (rule ccontr)
  assume none: "\<not> ?thesis"
  define n :: nat where "n = 2 ^ (2 * k - 2)"
  define B where "B = (2 * n choose n)"
  define S where "S = {p. is_prime (int p) \<and> p \<le> 2 ^ k}"
  have n: "0 < n" and n2: "2 * n = 2 ^ (2 * k - 1)"
    using assms by (simp_all add: n_def flip: power_Suc)
  have "2 * k - 1 < 2 * k"
    using assms by simp
  then have n2_less: "2 * n < 2 ^ (2 * k)"
    unfolding n2 by (intro power_strict_increasing) simp_all
  have B: "0 < B"
    by (simp add: B_def)
  have "S \<subseteq> {..2 ^ k}"
    by (auto simp: S_def)
  then have fin: "finite S" and card: "card S \<le> 2 ^ k + 1"
    using finite_subset [of S "{..2 ^ k}"] card_mono [of "{..2 ^ k}" S] by simp_all
  have "fact n * fact (2 * n - n) * B = (fact (2 * n) :: nat)"
    unfolding B_def by (rule binomial_fact_lemma) simp
  then have Bf: "B dvd fact (2 * n)"
    by (metis dvd_triv_right)
  have primes: "\<forall>p. is_prime (int p) \<and> p dvd B \<longrightarrow> p \<in> S"
  proof (intro allI impI)
    fix p assume p: "is_prime (int p) \<and> p dvd B"
    then have "p dvd fact (2 * n)"
      using Bf by (meson dvd_trans)
    with p have "p \<le> 2 * n"
      by (intro prime_dvd_fact) simp_all
    with n2_less have "p < 2 ^ (2 * k)"
      by simp
    with none p have "p \<le> 2 ^ k"
      by (meson not_le)
    with p show "p \<in> S"
      by (simp add: S_def)
  qed
  have powers: "\<forall>p\<in>S. 1 < p \<and> (\<forall>a. p ^ a dvd B \<longrightarrow> p ^ a \<le> 2 * n)"
    using central_binomial_prime_power [OF _ n] prime_nat_gt_1
    by (auto simp: S_def B_def)
  have "2 ^ n \<le> B"
    unfolding B_def by (rule central_binomial_lower)
  also have "B \<le> (2 * n) ^ card S"
    using fin B primes powers by (rule smooth_bound)
  also have "\<dots> \<le> (2 * n) ^ (2 ^ k + 1)"
    using card n by (intro power_increasing) simp_all
  also have "\<dots> = 2 ^ ((2 * k - 1) * (2 ^ k + 1))"
    by (simp only: n2 power_mult)
  finally have "n \<le> (2 * k - 1) * (2 ^ k + 1)"
    by simp
  also have "\<dots> \<le> (2 * k) * (2 * 2 ^ k)"
    by (intro mult_le_mono) simp_all
  also have "\<dots> = k * 2 ^ (k + 2)"
    by simp
  finally have upper: "n \<le> k * 2 ^ (k + 2)" .
  have "k < 2 ^ (k - 4)"
    using linear_less_exp [of "k - 4"] assms by simp
  then have "k * 2 ^ (k + 2) < 2 ^ (k - 4) * 2 ^ (k + 2)"
    by simp
  also have "\<dots> = 2 ^ ((k - 4) + (k + 2))"
    by (rule power_add [symmetric])
  also have "(k - 4) + (k + 2) = 2 * k - 2"
    using assms by simp
  finally have "k * 2 ^ (k + 2) < n"
    by (simp only: n_def)
  with upper show False
    by simp
qed

subsection \<open>A key pair too large for the integer type\<close>

lemma BinPower_one: "1 < n \<Longrightarrow> 0 \<le> b \<Longrightarrow> b < n \<Longrightarrow> n < 2 ^ MaxBits \<Longrightarrow> BinPower b 1 n = Inr b"
  by (simp add: BinPower.simps [of b 1] BinPower_zero small_sdiv_smod mul_def truncate_bits_id
      modulo_def smod_nonneg)

lemma BinPower_lost_square:
  assumes "mul b b = 0" and "0 \<le> b" and "b < n" and "1 < n" and "n < 2 ^ MaxBits"
  shows "2 \<le> e \<Longrightarrow> BinPower b e n = Inr 0"
proof (induction "nat e" arbitrary: e rule: less_induct)
  case less
  define h where "h = e sdiv 2"
  have h: "h = e div 2" "1 \<le> h" "nat h < nat e"
    using less.prems by (simp_all add: h_def sdiv_nonneg)
  have "BinPower b h n = Inr b \<or> BinPower b h n = Inr 0"
  proof (cases "h = 1")
    case True
    with assms show ?thesis
      by (simp add: BinPower_one)
  next
    case False
    with h have "2 \<le> h" by simp
    with less.hyps [OF h(3)] show ?thesis
      by simp
  qed
  then obtain v where v: "BinPower b h n = Inr v" "mul v v = 0"
    using assms(1) by (auto simp: mul_def truncate_bits_def)
  have z: "mul 0 b = 0" "modulo 0 n = Inr 0"
    using assms(4) by (simp_all add: mul_def truncate_bits_def modulo_def)
  from less.prems have "e \<noteq> 0" by simp
  then show ?case
    by (subst BinPower.simps) (simp add: v z flip: h_def)
qed

lemma BinPower_zero_base:
  assumes "n \<noteq> 0"
  shows "1 \<le> d \<Longrightarrow> BinPower 0 d n = Inr 0"
proof (induction "nat d" arbitrary: d rule: less_induct)
  case less
  define h where "h = d sdiv 2"
  have h: "h = d div 2" "0 \<le> h" "nat h < nat d"
    using less.prems by (simp_all add: h_def sdiv_nonneg)
  have z: "mul x 0 = 0" "modulo 0 n = Inr 0" for x
    using assms by (simp_all add: mul_def truncate_bits_def modulo_def)
  from less.prems have d: "d \<noteq> 0" by simp
  show ?case
  proof (cases "h = 0")
    case True
    with h(1) less.prems have "d = 1" by simp
    then show ?thesis
      using assms by (simp add: BinPower.simps [of 0 1] BinPower_zero small_sdiv_smod z modulo_def)
  next
    case False
    have "0 \<le> d div 2"
      using less.prems by simp
    with False have "1 \<le> h"
      unfolding h(1) by linarith
    from less.hyps [OF h(3) this] have "BinPower 0 h n = Inr 0" .
    with d show ?thesis
      by (subst BinPower.simps) (simp add: z flip: h_def)
  qed
qed


lemma is_prime_odd: "is_prime p \<Longrightarrow> 2 < p \<Longrightarrow> odd p"
  using is_prime_divisor [of p 2] by auto

lemma prime_3: "is_prime 3"
  by code_simp

lemma oversize_key_general:
  fixes k :: nat
  assumes "7 \<le> k" and "MaxBits = 2 * k + 2"
  shows "\<exists>p q e. is_prime p \<and> is_prime q \<and> p \<noteq> q \<and> odd p \<and> odd q
     \<and> 2 ^ (k + 1) < p * q \<and> in_range (p * q)
     \<and> 0 < e \<and> e < (p - 1) * (q - 1) \<and> (e * e) mod ((p - 1) * (q - 1)) = 1
     \<and> snd (Encode (2 ^ (k + 1)) (e, p * q)) = Inr 0 \<and> Decode 0 (e, p * q) = Inr 0"
proof -
  obtain P :: nat where P: "is_prime (int P)" "2 ^ k < P" "P < 2 ^ (2 * k)"
    using prime_between_powers [OF assms(1)] by blast
  define p where "p = int P"
  define n where "n = p * 3"
  define phi where "phi = (p - 1) * (3 - 1)"
  define e where "e = phi - 1"
  define m :: int where "m = 2 ^ (k + 1)"
  have "int (2 ^ k) < int P" "int P < int (2 ^ (2 * k))"
    using P(2,3) by (simp_all only: of_nat_less_iff)
  then have p: "is_prime p" "2 ^ k < p" "p < 2 ^ (2 * k)"
    using P(1) unfolding p_def by simp_all
  have "(2::int) ^ 2 \<le> 2 ^ k"
    using assms(1) by (intro power_increasing) simp_all
  with p(2) have p4: "4 < p"
    by simp
  then have odd: "odd p" and neq: "p \<noteq> 3"
    using is_prime_odd [OF p(1)] by simp_all
  have "0 < p"
    using p4 by simp
  have "m = 2 * 2 ^ k"
    by (simp add: m_def)
  also have "\<dots> < 2 * p"
    using p(2) by simp
  also have "\<dots> < n"
    using \<open>0 < p\<close> by (simp add: n_def)
  finally have m_n: "m < n" .
  have "n < 3 * 2 ^ (2 * k)"
    using p(3) by (simp add: n_def)
  also have "\<dots> < 4 * 2 ^ (2 * k)"
    by simp
  finally have "n < 4 * 2 ^ (2 * k)" .
  also have "\<dots> = (2::int) ^ MaxBits"
    by (simp add: assms(2) power_add)
  finally have n_lim: "n < 2 ^ MaxBits" .
  have n_pos: "1 < n"
    using p4 by (simp add: n_def)
  have e: "2 \<le> e" "0 < e" "e < phi" and phi: "1 < phi"
    using p4 by (simp_all add: e_def phi_def)
  have "e * e = 1 + phi * (phi - 2)"
    by (simp add: e_def algebra_simps)
  also have "\<dots> mod phi = 1 mod phi"
    by (rule mod_mult_self2)
  also have "\<dots> = 1"
    using phi by simp
  finally have inv: "(e * e) mod phi = 1" .
  have "m * m = 2 ^ MaxBits"
    by (simp add: m_def assms(2) flip: power_add) 
  then have "mul m m = 0"
    by (simp add: mul_def truncate_bits_def)
  then have "BinPower m e n = Inr 0"
    using _ m_n n_pos n_lim e(1) by (rule BinPower_lost_square) (simp add: m_def)
  then have enc: "snd (Encode m (e, n)) = Inr 0"
    by (simp add: Encode_def)
  have dec: "Decode 0 (e, n) = Inr 0"
    using BinPower_zero_base [of n e] n_pos e by (simp add: Decode_def)
  have "in_range n"
    using n_lim n_pos by (simp add: in_range_def)
  with p(1) prime_3 neq odd m_n e inv enc dec
  have "is_prime p \<and> is_prime 3 \<and> p \<noteq> 3 \<and> odd p \<and> odd (3::int)
     \<and> 2 ^ (k + 1) < p * 3 \<and> in_range (p * 3)
     \<and> 0 < e \<and> e < (p - 1) * (3 - 1) \<and> (e * e) mod ((p - 1) * (3 - 1)) = 1
     \<and> snd (Encode (2 ^ (k + 1)) (e, p * 3)) = Inr 0 \<and> Decode 0 (e, p * 3) = Inr 0"
    by (simp add: n_def m_def phi_def)
  then show ?thesis
    by blast
qed

lemma oversize_key:
  "\<exists>p q e. is_prime p \<and> is_prime q \<and> p \<noteq> q \<and> odd p \<and> odd q
     \<and> 2 ^ 2048 < p * q \<and> in_range (p * q)
     \<and> 0 < e \<and> e < (p - 1) * (q - 1) \<and> (e * e) mod ((p - 1) * (q - 1)) = 1
     \<and> snd (Encode (2 ^ 2048) (e, p * q)) = Inr 0 \<and> Decode 0 (e, p * q) = Inr 0"
proof -
  have k: "(7::nat) \<le> 2047" "MaxBits = 2 * 2047 + 2" "2047 + 1 = (2048::nat)"
    by (simp_all add: MaxBits_def)
  from oversize_key_general [OF k(1,2)] show ?thesis
    by (simp only: k(3))
qed

section \<open>A value above \<open>2 ^ 2048\<close> accepted through a wrapped square\<close>

lemma modulo_small: "0 \<le> a \<Longrightarrow> a < b \<Longrightarrow> modulo a b = Inr a"
proof -
  assume a: "0 \<le> a" "a < b"
  then have "0 < b"
    by simp
  with a show ?thesis
    by (simp add: modulo_nonneg)
qed

lemma BinPower_small_power:
  assumes "m < 2 ^ MaxBits"
  shows "2 ^ k < m \<Longrightarrow> BinPower 2 (int k) m = Inr (2 ^ k)"
proof (induction k rule: less_induct)
  case (less k)
  show ?case
  proof (cases "k = 0")
    case True
    then show ?thesis
      by (simp add: BinPower_zero)
  next
    case False
    define h where "h = k div 2"
    have h: "h < k" and half: "int k sdiv 2 = int h"
      using False by (simp_all add: h_def sdiv_nonneg zdiv_int)
    have "2 * h \<le> k"
      by (simp add: h_def)
    then have "(2::int) ^ (2 * h) \<le> 2 ^ k"
      by (intro power_increasing) simp_all
    also note less.prems
    finally have sq: "(2::int) ^ (2 * h) < m" .
    have "(2::int) ^ h \<le> 2 ^ (2 * h)"
      by (intro power_increasing) simp_all
    also note sq
    finally have "(2::int) ^ h < m" .
    with h have rec: "BinPower 2 (int k sdiv 2) m = Inr (2 ^ h)"
      unfolding half by (rule less.IH)
    have pp: "(2::int) ^ h * 2 ^ h = 2 ^ (2 * h)"
      by (simp add: mult_2 power_add)
    have "(2::int) ^ h * 2 ^ h < m"
      using sq by (simp only: pp)
    also note assms
    finally have "(2::int) ^ h * 2 ^ h < 2 ^ MaxBits" .
    then have "mul (2 ^ h) (2 ^ h) = (2::int) ^ h * 2 ^ h"
      by (intro mul_exact) simp_all
    then have "mul (2 ^ h) (2 ^ h) = (2::int) ^ (2 * h)"
      by (simp only: pp)
    then have step: "modulo (mul (2 ^ h) (2 ^ h)) m = Inr (2 ^ (2 * h))"
      using sq by (simp add: modulo_small)
    have parity: "int k smod 2 \<noteq> 0 \<longleftrightarrow> odd k"
      by (simp add: smod_nonneg flip: of_nat_mod) presburger
    show ?thesis
    proof (cases "odd k")
      case True
      then have k: "k = Suc (2 * h)"
        by (auto simp: h_def elim: oddE)
      have e: "(2::int) ^ (2 * h) * 2 = 2 ^ k"
        by (subst k) simp
      have "(2::int) ^ (2 * h) * 2 < m"
        using less.prems by (simp only: e)
      also note assms
      finally have "mul (2 ^ (2 * h)) 2 = (2::int) ^ (2 * h) * 2"
        by (intro mul_exact) simp_all
      then have "mul (2 ^ (2 * h)) 2 = (2::int) ^ k"
        by (simp only: e)
      with less.prems have "modulo (mul (2 ^ (2 * h)) 2) m = Inr (2 ^ k)"
        by (simp add: modulo_small)
      with True False rec step parity show ?thesis
        by (subst BinPower.simps) simp
    next
      case False
      then have k: "k = 2 * h"
        by (auto simp: h_def elim: evenE)
      with \<open>k \<noteq> 0\<close> False rec step parity show ?thesis
        by (subst BinPower.simps) simp
    qed
  qed
qed

lemma power_cycle:
  assumes "(2::int) ^ ord mod p = 1"
  shows "(2::int) ^ (ord * k + r) mod p = 2 ^ r mod p"
proof -
  have "(2::int) ^ (ord * k + r) = (2 ^ ord) ^ k * 2 ^ r"
    by (simp add: power_add power_mult)
  also have "\<dots> mod p = ((2 ^ ord mod p) ^ k * 2 ^ r) mod p"
    by (metis power_mod mod_mult_left_eq)
  also have "\<dots> = 2 ^ r mod p"
    by (simp add: assms)
  finally show ?thesis .
qed

lemma residue_nonzero:
  assumes "(2::int) ^ ord mod p = 1" and "(c * 2 ^ r + 1) mod p \<noteq> 0" and "n = ord * k + r"
  shows "\<not> p dvd (c * 2 ^ n + 1)"
proof -
  have "(c * 2 ^ n + 1) mod p = (c * (2 ^ n mod p) + 1) mod p"
    by (metis mod_add_left_eq mod_mult_right_eq)
  also have "\<dots> = (c * (2 ^ r mod p) + 1) mod p"
    by (simp only: assms(3) power_cycle [OF assms(1)])
  also have "\<dots> = (c * 2 ^ r + 1) mod p"
    by (metis mod_add_left_eq mod_mult_right_eq)
  finally show ?thesis
    using assms(2) by (simp add: dvd_eq_mod_eq_0)
qed

lemma trial_division_none:
  assumes "\<not> 3 dvd v" "\<not> 5 dvd v" "\<not> 7 dvd v" "\<not> 11 dvd v" "\<not> 13 dvd v"
    "\<not> 17 dvd v" "\<not> 19 dvd v" "\<not> 23 dvd v" "\<not> 29 dvd v" "\<not> 31 dvd v"
  shows "\<not> trial_division primes v"
  unfolding trial_division_primes using assms by (simp add: primes_def)

lemma oversize_filter: "\<not> trial_division primes (4095 * 2 ^ 4083 + 1)"
proof (rule trial_division_none)
  show "\<not> 3 dvd (4095 * 2 ^ 4083 + 1 :: int)"
    by (rule residue_nonzero [where ord = 2 and k = 2041 and r = 1]) simp_all
  show "\<not> 5 dvd (4095 * 2 ^ 4083 + 1 :: int)"
    by (rule residue_nonzero [where ord = 4 and k = 1020 and r = 3]) simp_all
  show "\<not> 7 dvd (4095 * 2 ^ 4083 + 1 :: int)"
    by (rule residue_nonzero [where ord = 3 and k = 1361 and r = 0]) simp_all
  show "\<not> 11 dvd (4095 * 2 ^ 4083 + 1 :: int)"
    by (rule residue_nonzero [where ord = 10 and k = 408 and r = 3]) simp_all
  show "\<not> 13 dvd (4095 * 2 ^ 4083 + 1 :: int)"
    by (rule residue_nonzero [where ord = 12 and k = 340 and r = 3]) simp_all
  show "\<not> 17 dvd (4095 * 2 ^ 4083 + 1 :: int)"
    by (rule residue_nonzero [where ord = 8 and k = 510 and r = 3]) simp_all
  show "\<not> 19 dvd (4095 * 2 ^ 4083 + 1 :: int)"
    by (rule residue_nonzero [where ord = 18 and k = 226 and r = 15]) simp_all
  show "\<not> 23 dvd (4095 * 2 ^ 4083 + 1 :: int)"
    by (rule residue_nonzero [where ord = 11 and k = 371 and r = 2]) simp_all
  show "\<not> 29 dvd (4095 * 2 ^ 4083 + 1 :: int)"
    by (rule residue_nonzero [where ord = 28 and k = 145 and r = 23]) simp_all
  show "\<not> 31 dvd (4095 * 2 ^ 4083 + 1 :: int)"
    by (rule residue_nonzero [where ord = 5 and k = 816 and r = 3]) simp_all
qed

lemma oversize_shape:
  fixes a c :: nat and v :: int
  assumes P: "(2::nat) ^ c = a + c + 1" and M: "MaxBits = a + c + 1"
    and c: "1 \<le> c" and ac: "c < a" and v: "v = (2 ^ c - 1) * 2 ^ a + 1"
  shows "v + 2 ^ a = 2 ^ (a + c) + 1" and "(2::int) ^ MaxBits = 2 * 2 ^ (a + c)"
    and "2 * (2::int) ^ a \<le> 2 ^ (a + c)" and "(4::int) \<le> 2 ^ a"
    and "(2::int) ^ c - 1 = int (a + c)" and "odd (a + c)"
proof -
  show "v + 2 ^ a = 2 ^ (a + c) + 1"
    by (simp add: v power_add algebra_simps)
  show "(2::int) ^ MaxBits = 2 * 2 ^ (a + c)"
    by (simp add: M)
  have "(2::int) ^ (a + 1) \<le> 2 ^ (a + c)"
    using c by (intro power_increasing) simp_all
  then show "2 * (2::int) ^ a \<le> 2 ^ (a + c)"
    by simp
  have "(2::int) ^ 2 \<le> 2 ^ a"
    using c ac by (intro power_increasing) simp_all
  then show "(4::int) \<le> 2 ^ a"
    by simp
  have "int (2 ^ c) = int (a + c + 1)"
    by (simp only: P)
  then show q: "(2::int) ^ c - 1 = int (a + c)"
    by simp
  have "even ((2::int) ^ c)"
    using c by simp
  then have o: "odd ((2::int) ^ c - 1)"
    by simp
  have "odd (int (a + c))"
    by (subst q [symmetric]) (rule o)
  moreover have "even (int (a + c)) \<longleftrightarrow> even (a + c)"
    by (rule even_of_nat)
  ultimately show "odd (a + c)"
    by blast
qed

lemma oversize_surplus:
  fixes a c :: nat and v :: int
  assumes P: "(2::nat) ^ c = a + c + 1" and M: "MaxBits = a + c + 1"
    and c: "1 \<le> c" and ac: "c < a" and v: "v = (2 ^ c - 1) * 2 ^ a + 1"
  shows "BinPower 2 (2 ^ c - 1) v = Inr (2 ^ a - 1)"
    and "(2::int) ^ nat (2 ^ c - 1) mod v = 2 ^ a - 1"
proof -
  note sh = oversize_shape [OF assms]
  define A X :: int where "A = 2 ^ a" and "X = 2 ^ (a + c)"
  define n where "n = a + c"
  define h where "h = n div 2"
  have lin: "v + A = X + 1" "(2::int) ^ MaxBits = 2 * X" "2 * A \<le> X" "4 \<le> A"
    using sh(1-4) by (simp_all add: A_def X_def)
  have n: "n = Suc (2 * h)"
    using sh(6) by (auto simp: h_def n_def elim: oddE)
  have range: "v < 2 ^ MaxBits"
    using lin by simp
  have Xn: "(2::int) ^ n = X"
    by (simp add: X_def n_def)
  have e: "(2::int) ^ (2 * h) * 2 = X"
    unfolding Xn [symmetric] by (subst n) simp
  have "X < 2 * v"
    using lin by simp
  then have "(2::int) ^ (2 * h) * 2 < 2 * v"
    by (simp only: e)
  then have sq: "(2::int) ^ (2 * h) < v"
    by simp
  have "(2::int) ^ h \<le> 2 ^ (2 * h)"
    by (intro power_increasing) simp_all
  also note sq
  finally have rec: "BinPower 2 (int h) v = Inr (2 ^ h)"
    by (intro BinPower_small_power range)
  have pp: "(2::int) ^ h * 2 ^ h = 2 ^ (2 * h)"
    by (simp add: mult_2 power_add)
  have "(2::int) ^ h * 2 ^ h < v"
    using sq by (simp only: pp)
  also note range
  finally have "mul (2 ^ h) (2 ^ h) = (2::int) ^ h * 2 ^ h"
    by (intro mul_exact) simp_all
  then have "mul (2 ^ h) (2 ^ h) = (2::int) ^ (2 * h)"
    by (simp only: pp)
  then have step: "modulo (mul (2 ^ h) (2 ^ h)) v = Inr (2 ^ (2 * h))"
    using sq by (simp add: modulo_small)
  have "X < 2 ^ MaxBits"
    using lin by simp
  then have "(2::int) ^ (2 * h) * 2 < 2 ^ MaxBits"
    by (simp only: e)
  then have "mul (2 ^ (2 * h)) 2 = (2::int) ^ (2 * h) * 2"
    by (intro mul_exact) simp_all
  then have m2: "mul (2 ^ (2 * h)) 2 = X"
    by (simp only: e)
  have "X = (A - 1) + v * 1"
    using lin by simp
  then have "X mod v = (A - 1) mod v"
    by (simp only: mod_mult_self2)
  also have "\<dots> = A - 1"
    using lin by (intro mod_pos_pos_trivial) simp_all
  finally have Xv: "X mod v = A - 1" .
  have "0 \<le> X" "0 < v"
    using lin by simp_all
  then have last: "modulo (mul (2 ^ (2 * h)) 2) v = Inr (A - 1)"
    by (simp add: m2 modulo_nonneg Xv)
  have half: "int n sdiv 2 = int h"
    by (simp add: h_def sdiv_nonneg zdiv_int)
  have "int n smod 2 \<noteq> 0 \<longleftrightarrow> odd n"
    by (simp add: smod_nonneg flip: of_nat_mod) presburger
  then have parity: "int n smod 2 \<noteq> 0"
    using n by simp
  have nz: "int n \<noteq> 0"
    using n by simp
  have "BinPower 2 (int n) v = Inr (A - 1)"
    using nz rec step last parity by (subst BinPower.simps) (simp add: half)
  then show "BinPower 2 (2 ^ c - 1) v = Inr (2 ^ a - 1)"
    by (simp only: sh(5) n_def A_def)
  have "nat (2 ^ c - 1) = n"
    by (simp only: sh(5) n_def nat_int)
  then show "(2::int) ^ nat (2 ^ c - 1) mod v = 2 ^ a - 1"
    using Xv by (simp only: Xn A_def)
qed

lemma oversize_accepted:
  fixes a c :: nat and v :: int
  assumes P: "(2::nat) ^ c = a + c + 1" and M: "MaxBits = a + c + 1"
    and c: "1 \<le> c" and ac: "c < a" and v: "v = (2 ^ c - 1) * 2 ^ a + 1"
  shows "witness_check v a = Inr True"
    and "odd v \<and> 3 \<le> v \<and> v < 2 ^ MaxBits \<and> v - 1 = 2 ^ a * (2 ^ c - 1) \<and> odd ((2::int) ^ c - 1)"
    and "(2::int) ^ a - 1 \<noteq> 1 \<and> 2 ^ a - 1 \<noteq> v - 1 \<and> 0 \<le> (2::int) ^ a - 1 \<and> 2 ^ a - 1 < v"
proof -
  note sh = oversize_shape [OF assms]
  define A X K :: int where "A = 2 ^ a" and "X = 2 ^ (a + c)" and "K = 2 ^ (a - c - 1)"
  have lin: "v + A = X + 1" "(2::int) ^ MaxBits = 2 * X" "2 * A \<le> X" "4 \<le> A"
    using sh(1-4) by (simp_all add: A_def X_def)
  have a_lt: "a < MaxBits"
    by (simp add: M)
  have range: "v < 2 ^ MaxBits" and pos: "0 < v"
    using lin by simp_all
  have s1: "sub v 1 = v - 1"
    using pos range by (simp add: sub_exact)
  have "odd ((2::int) ^ c - 1)"
    using sh(5,6) by simp
  moreover have "even ((2::int) ^ a)"
    using c ac by simp
  ultimately have od: "odd ((2::int) ^ c - 1)" "odd v"
    by (simp_all add: v)
  have dec: "v - 1 = 2 ^ a * (2 ^ c - 1)"
    by (simp add: v)
  show "odd v \<and> 3 \<le> v \<and> v < 2 ^ MaxBits \<and> v - 1 = 2 ^ a * (2 ^ c - 1) \<and> odd ((2::int) ^ c - 1)"
    using od dec range lin by simp
  show facts: "(2::int) ^ a - 1 \<noteq> 1 \<and> 2 ^ a - 1 \<noteq> v - 1 \<and> 0 \<le> (2::int) ^ a - 1 \<and> 2 ^ a - 1 < v"
    using lin by (simp add: A_def)
  have "v = (2 ^ c - 1) * A + 1" "(0::int) \<le> 1" "1 < A"
    using lin by (simp_all add: v A_def)
  then have "v div A = 2 ^ c - 1"
    by (simp add: mult.commute)
  then have dv: "divide v (shift_left_u 1 a) = Inr (2 ^ c - 1)"
    using pos a_lt lin by (simp add: divide_def shift_left_u_one sdiv_nonneg A_def)
  have sp: "BinPower 2 (2 ^ c - 1) v = Inr (A - 1)"
    unfolding A_def by (rule oversize_surplus(1) [OF assms])
  have "a + a = (a + c + 1) + (a - c - 1)"
    using ac by simp
  then have "(2::int) ^ (a + a) = 2 ^ (a + c + 1) * 2 ^ (a - c - 1)"
    by (simp only: power_add)
  then have AA: "A * A = 2 * X * K"
    by (simp add: A_def K_def X_def power_add)
  have "(A - 1) * (A - 1) = A * A - 2 * A + 1"
    by (simp add: algebra_simps)
  also have "\<dots> = (2 * v - 1) + 2 * X * (K - 1)"
    using lin(1) by (simp add: AA algebra_simps)
  finally have "(A - 1) * (A - 1) = (2 * v - 1) + 2 ^ MaxBits * (K - 1)"
    by (simp only: lin(2))
  then have "((A - 1) * (A - 1)) mod 2 ^ MaxBits = (2 * v - 1) mod 2 ^ MaxBits"
    by (simp only: mod_mult_self2)
  also have "\<dots> = 2 * v - 1"
    using lin by (intro mod_pos_pos_trivial) simp_all
  finally have tr: "((A - 1) * (A - 1)) mod 2 ^ MaxBits = 2 * v - 1" .
  have "0 \<le> (A - 1) * (A - 1)"
    by simp
  then have "mul (A - 1) (A - 1) = 2 * v - 1"
    by (simp only: mul_def truncate_bits_nonneg tr)
  moreover have "(2 * v - 1) mod v = v - 1"
  proof -
    have "2 * v - 1 = (v - 1) + v * 1"
      by simp
    then have "(2 * v - 1) mod v = (v - 1) mod v"
      by (simp only: mod_mult_self2)
    also have "\<dots> = v - 1"
      using pos by (intro mod_pos_pos_trivial) simp_all
    finally show ?thesis .
  qed
  ultimately have "modulo (mul (A - 1) (A - 1)) v = Inr (v - 1)"
    using pos by (simp add: modulo_nonneg)
  moreover have "1 < a"
    using c ac by simp
  ultimately have "squaring_loop 1 a (A - 1) v = Inr True"
    by (subst squaring_loop.simps) (simp add: s1)
  then show "witness_check v a = Inr True"
    by (simp add: witness_check_def dv sp)
qed

lemma oversize_never:
  fixes a c k :: nat and v :: int
  assumes c: "1 \<le> c" and a: "a = (c + 1) * k + 1" and v: "v = (2 ^ c - 1) * 2 ^ a + 1"
  shows "(2 ^ a - 1) ^ n mod v \<noteq> v - 1"
proof
  define D E :: int where "D = 2 ^ (c + 1) - 1" and "E = (2 ^ (c + 1)) ^ k"
  assume hit: "(2 ^ a - 1) ^ n mod v = v - 1"
  have "(2::int) ^ 2 \<le> 2 ^ (c + 1)"
    using c by (intro power_increasing) simp_all
  then have D: "3 \<le> D"
    by (simp add: D_def)
  have A: "(2::int) ^ a = 2 * E"
    by (simp add: a E_def power_add power_mult)
  have "(2::int) ^ (c + 1) = 1 + D * 1"
    by (simp add: D_def)
  then have "(2::int) ^ (c + 1) mod D = 1 mod D"
    by (simp only: mod_mult_self2)
  then have "(2::int) ^ (c + 1) mod D = 1"
    using D by simp
  then have "E mod D = 1 ^ k mod D"
    unfolding E_def by (metis power_mod)
  then have E: "E mod D = 1"
    using D by simp
  have "(2 * E - 1) mod D = (2 * (E mod D) - 1) mod D"
    by (metis mod_diff_left_eq mod_mult_right_eq)
  then have s: "(2 ^ a - 1) mod D = 1"
    using D by (simp add: E A)
  have "v = (D - 1) * E + 1"
    by (simp add: v A D_def algebra_simps)
  then have "v mod D = ((D - 1) * (E mod D) + 1) mod D"
    by (metis mod_add_left_eq mod_mult_right_eq)
  then have "v mod D = 0"
    by (simp add: E)
  then have dvd: "D dvd v"
    by (simp add: dvd_eq_mod_eq_0)
  then obtain w where w: "v = D * w"
    by (auto elim: dvdE)
  have "(2 ^ a - 1) ^ n mod D = ((2 ^ a - 1) mod D) ^ n mod D"
    by (simp add: power_mod)
  then have one: "(2 ^ a - 1) ^ n mod D = 1"
    using D by (simp add: s)
  have "(2 ^ a - 1) ^ n mod D = ((2 ^ a - 1) ^ n mod v) mod D"
    using dvd by (simp add: mod_mod_cancel)
  also have "\<dots> = (v - 1) mod D"
    by (simp only: hit)
  also have "v - 1 = (D - 1) + D * (w - 1)"
    by (simp add: w algebra_simps)
  also have "\<dots> mod D = (D - 1) mod D"
    by (simp only: mod_mult_self2)
  also have "\<dots> = D - 1"
    using D by (intro mod_pos_pos_trivial) simp_all
  finally have "1 = D - 1"
    using one by simp
  with D show False
    by simp
qed

lemma oversize_rule_fails:
  fixes a c k :: nat and q v :: int
  assumes P: "(2::nat) ^ c = a + c + 1" and M: "MaxBits = a + c + 1"
    and c: "1 \<le> c" and ac: "c < a" and a: "a = (c + 1) * k + 1"
    and q: "q = 2 ^ c - 1" and v: "v = q * 2 ^ a + 1"
    and filter: "\<not> trial_division primes v"
  shows "odd v \<and> 3 \<le> v \<and> v < 2 ^ MaxBits \<and> \<not> trial_division primes v
     \<and> v - 1 = 2 ^ a * q \<and> odd q
     \<and> BinPower 2 q v = Inr (2 ^ a - 1) \<and> 2 ^ nat q mod v = 2 ^ a - 1
     \<and> IsPrime v = Some (Inr True)
     \<and> \<not> (2 ^ a - 1 = (1::int) \<or> 2 ^ a - 1 = v - 1
          \<or> (\<exists>i. 1 \<le> i \<and> i \<le> a - 1 \<and> squarings v (2 ^ a - 1) i = v - 1))"
proof -
  have v': "v = (2 ^ c - 1) * 2 ^ a + 1"
    by (simp only: v q)
  note shape = oversize_accepted(2) [OF P M c ac v', folded q]
  note surplus = oversize_surplus [OF P M c ac v', folded q]
  note vals = oversize_accepted(3) [OF P M c ac v']
  have "1 < v"
    using shape by simp
  with filter shape have "IsPrime v = Some (witness_check v a)"
    by (intro IsPrime_unfold [where q = q]) simp_all
  then have accepted: "IsPrime v = Some (Inr True)"
    by (simp only: oversize_accepted(1) [OF P M c ac v'])
  have "squarings v (2 ^ a - 1) i \<noteq> v - 1" for i
  proof -
    have pos: "0 < v"
      using shape by simp
    have "squarings v (2 ^ a - 1) i = (2 ^ a - 1) ^ 2 ^ i mod v"
      by (rule squarings_exact [OF pos]) (use vals in simp_all)
    then show ?thesis
      using oversize_never [OF c a v', of "2 ^ i"] by simp
  qed
  with shape surplus vals accepted filter show ?thesis
    by blast
qed

section \<open>Claims about \<open>BinPower\<close>\<close>

text \<open>
  C2 (as amended). For every base \<open>b \<ge> 0\<close>, exponent \<open>k \<ge> 0\<close> and modulus \<open>m > 1\<close>
  such that the products the function forms stay within the 4096 bits of the integer type,
  that is \<open>(m - 1) * (m - 1) < 2 ^ 4096\<close> and \<open>(m - 1) * b < 2 ^ 4096\<close>, \<open>BinPower b k m\<close> returns
  \<open>b ^ k mod m\<close>. \<open>BinPower b 0 m\<close> is 1 for every \<open>b\<close> and \<open>m\<close>, and
  \<open>BinPower 2 10 1000 = 24\<close>.
\<close>

theorem BinPower_power_mod:
  "(0 \<le> b \<longrightarrow> 0 \<le> k \<longrightarrow> 1 < m \<longrightarrow> (m - 1) * (m - 1) < 2 ^ MaxBits \<longrightarrow> (m - 1) * b < 2 ^ MaxBits
      \<longrightarrow> BinPower b k m = Inr (b ^ nat k mod m))
   \<and> BinPower b' 0 m' = Inr 1
   \<and> BinPower 2 10 1000 = Inr 24"
proof (intro conjI impI)
  assume "0 \<le> b" "0 \<le> k" "1 < m" "(m - 1) * (m - 1) < 2 ^ MaxBits" "(m - 1) * b < 2 ^ MaxBits"
  then show "BinPower b k m = Inr (b ^ nat k mod m)"
    using BinPower_exact_nat [of b m "nat k"] by simp
next
  show "BinPower b' 0 m' = Inr 1"
    by (rule BinPower_zero)
next
  have "(999::int) * 999 < 2 ^ 64" "(999::int) * 2 < 2 ^ 64"
    by simp_all
  moreover have "(2::int) ^ 64 \<le> 2 ^ MaxBits"
    by (rule power_increasing) (simp_all add: MaxBits_def)
  ultimately have "BinPower 2 (int 10) 1000 = Inr (2 ^ 10 mod 1000)"
    by (intro BinPower_exact_nat) simp_all
  then show "BinPower 2 10 1000 = Inr 24"
    by simp
qed

theorem BinPower_power_mod_witness:
  "(0::int) \<le> 3 \<and> (0::int) \<le> 5 \<and> (1::int) < 7
   \<and> (7 - 1) * (7 - 1) < (2::int) ^ MaxBits \<and> (7 - 1) * 3 < (2::int) ^ MaxBits
   \<and> BinPower 3 5 7 = Inr (3 ^ nat 5 mod 7) \<and> BinPower 3 5 7 = Inr 5"
proof -
  have "(6::int) * 6 < 2 ^ 64" "(6::int) * 3 < 2 ^ 64"
    by simp_all
  then have b: "(7 - 1) * (7 - 1) < (2::int) ^ MaxBits" "(7 - 1) * 3 < (2::int) ^ MaxBits"
    using limit_ge_64 by simp_all
  with BinPower_power_mod [of 3 5 7] have "BinPower 3 5 7 = Inr (3 ^ nat 5 mod 7)"
    by simp
  moreover have "(3::int) ^ nat 5 mod 7 = 5"
    by (simp add: eval_nat_numeral)
  ultimately show ?thesis
    using b by simp
qed

text \<open>
  C2 as stated, for every modulus \<open>m > 1\<close>, fails where a product exceeds 4096 bits:
  with base \<open>2 ^ 2048\<close>, exponent 2 and modulus \<open>2 ^ 4096 - 1\<close> the square of the base
  is \<open>2 ^ 4096\<close>, whose low 4096 bits are zero, so the function returns 0, while
  \<open>(2 ^ 2048) ^ 2 mod (2 ^ 4096 - 1) = 1\<close>.
\<close>

theorem BinPower_overflow_counterexample:
  "in_range (2 ^ 2048) \<and> in_range (2 ^ 4096 - 1) \<and> (1::int) < 2 ^ 4096 - 1
   \<and> BinPower (2 ^ 2048) 2 (2 ^ 4096 - 1) = Inr 0
   \<and> ((2::int) ^ 2048) ^ nat 2 mod (2 ^ 4096 - 1) = 1"
proof -
  have "MaxBits = 2 * 2048" "(0::nat) < 2048"
    by (simp_all add: MaxBits_def)
  from BinPower_square_overflow [OF this] show ?thesis
    by (simp only: MaxBits_def)
qed

section \<open>Claims about \<open>IsPrime\<close>\<close>

text \<open>
  C5 (as amended). For every odd \<open>v \<ge> 3\<close> with \<open>v * v \<le> 2 ^ 4096\<close>, so that the square of
  a residue fits the integer type, that passes the trial division, with
  \<open>v - 1 = 2 ^ pwr * q\<close> and \<open>q\<close> odd: \<open>BinPower 2 q v\<close> returns \<open>surplus = 2 ^ q mod v\<close>, and
  \<open>IsPrime v\<close> returns \<open>true\<close> exactly when \<open>surplus\<close> is 1 or \<open>v - 1\<close>, or one of the
  first \<open>pwr - 1\<close> successive squarings of \<open>surplus\<close> modulo \<open>v\<close> is \<open>v - 1\<close>; otherwise it
  returns \<open>false\<close>. The \<open>i\<close>-th squaring is \<open>surplus ^ (2 ^ i) mod v\<close>.
\<close>

theorem IsPrime_witness_rule:
  assumes "odd v" and "3 \<le> v" and "v * v \<le> 2 ^ MaxBits" and "\<not> trial_division primes v"
    and "v - 1 = 2 ^ pwr * q" and "odd q"
  shows "\<exists>surplus. BinPower 2 q v = Inr surplus \<and> surplus = 2 ^ nat q mod v
     \<and> IsPrime v = Some (Inr (surplus = 1 \<or> surplus = v - 1
          \<or> (\<exists>i. 1 \<le> i \<and> i \<le> pwr - 1 \<and> squarings v surplus i = v - 1)))
     \<and> (\<forall>i. squarings v surplus i = surplus ^ 2 ^ i mod v)"
proof -
  have "v < v * 3"
    using assms(2) by simp
  also have "\<dots> \<le> v * v"
    using assms(2) by (intro mult_left_mono) simp_all
  also note assms(3)
  finally have range: "v < 2 ^ MaxBits" .
  have q: "0 < q"
  proof (rule ccontr)
    assume "\<not> 0 < q"
    then have "2 ^ pwr * q \<le> 0" by (simp add: mult_le_0_iff)
    with assms show False by simp
  qed
  have lim: "2 ^ pwr * q < (2::int) ^ MaxBits"
    using assms(2,5) range by simp
  have pwr: "pwr < MaxBits"
    using q lim by (rule exp_less_limit)
  have "pwr \<noteq> 0"
    using assms by (cases pwr) auto
  then have "(2::int) ^ 0 < 2 ^ pwr"
    by (intro power_strict_increasing) simp_all
  then have big: "(1::int) < 2 ^ pwr"
    by simp
  have s1: "sub v 1 = v - 1" and a1: "add (v - 1) 1 = v"
    using assms(2) range by (simp_all add: sub_exact add_exact)
  have scan: "scan_power (v - 1) 0 = Some pwr"
    using assms(5,6) pwr by (rule scan_power_step) simp
  have "v = q * 2 ^ pwr + 1"
    using assms(5) by (simp add: mult.commute)
  then have "v div 2 ^ pwr = q"
    using big \<open>pwr \<noteq> 0\<close> by simp
  then have dv: "divide v (shift_left_u 1 pwr) = Inr q"
    using assms(2) pwr by (simp add: divide_def shift_left_u_one sdiv_nonneg)
  define surplus where "surplus = 2 ^ nat q mod v"
  have "(v - 1) * (v - 1) < v * v"
    using assms(2) by (simp add: algebra_simps)
  moreover have "(v - 1) * 2 \<le> (v - 1) * (v - 1)"
    using assms(2) by (intro mult_left_mono) simp_all
  ultimately have "(v - 1) * (v - 1) < 2 ^ MaxBits" "(v - 1) * 2 < 2 ^ MaxBits"
    using assms(3) by simp_all
  with assms(2) have "BinPower 2 (int (nat q)) v = Inr (2 ^ nat q mod v)"
    by (intro BinPower_exact_nat) simp_all
  with q have sp: "BinPower 2 q v = Inr surplus"
    by (simp add: surplus_def)
  have sr: "0 \<le> surplus" "surplus < v"
    using assms(2) by (simp_all add: surplus_def)
  have pos: "0 < v"
    using assms(2) by simp
  have loop: "squaring_loop 1 pwr surplus v
      = Inr (\<exists>i. 1 \<le> i \<and> i \<le> pwr - 1 \<and> squarings v surplus i = v - 1)"
    using pos assms(3) sr by (rule squaring_loop_iff)
  have "IsPrime v = Some (witness_check v pwr)"
    using assms(4) by (simp add: IsPrime_def s1 a1 scan)
  also have "witness_check v pwr = Inr (surplus = 1 \<or> surplus = v - 1
          \<or> (\<exists>i. 1 \<le> i \<and> i \<le> pwr - 1 \<and> squarings v surplus i = v - 1))"
    using loop by (simp add: witness_check_def dv sp s1)
  finally have res: "IsPrime v = Some (Inr (surplus = 1 \<or> surplus = v - 1
          \<or> (\<exists>i. 1 \<le> i \<and> i \<le> pwr - 1 \<and> squarings v surplus i = v - 1)))" .
  have "squarings v surplus i = surplus ^ 2 ^ i mod v" for i
    using pos sr by (rule squarings_exact)
  with sp res surplus_def show ?thesis
    by blast
qed

theorem IsPrime_witness_rule_witness:
  "odd (37::int) \<and> (3::int) \<le> 37 \<and> (37::int) * 37 \<le> 2 ^ MaxBits \<and> \<not> trial_division primes 37
   \<and> (37::int) - 1 = 2 ^ 2 * 9 \<and> odd (9::int)
   \<and> (\<exists>surplus. BinPower 2 9 37 = Inr surplus \<and> surplus = 2 ^ nat 9 mod 37
     \<and> IsPrime 37 = Some (Inr (surplus = 1 \<or> surplus = 37 - 1
          \<or> (\<exists>i. 1 \<le> i \<and> i \<le> 2 - 1 \<and> squarings 37 surplus i = 37 - 1)))
     \<and> (\<forall>i. squarings 37 surplus i = surplus ^ 2 ^ i mod 37))"
proof -
  have small: "(37::int) * 37 \<le> 2 ^ MaxBits"
    using limit_ge_64 by simp
  have filter: "\<not> trial_division primes 37"
    by (simp add: primes_def signed_modulo_int_def)
  have "(37::int) - 1 = 2 ^ 2 * 9" "odd (9::int)" "odd (37::int)" "(3::int) \<le> 37"
    by simp_all
  with small filter IsPrime_witness_rule [of 37 2 9] show ?thesis
    by simp
qed

text \<open>
  C5 as stated, for every odd value of the type, fails where the square of a residue
  exceeds 4096 bits. For \<open>v = 4095 * 2 ^ 4083 + 1\<close>, which has no factor in the array,
  \<open>v - 1 = 2 ^ 4083 * 4095\<close> and \<open>BinPower 2 4095 v\<close> returns \<open>2 ^ 4083 - 1\<close>, which is
  \<open>2 ^ 4095 mod v\<close>; it is neither 1 nor \<open>v - 1\<close>. Its square is
  \<open>2 ^ 8166 - 2 ^ 4084 + 1\<close>, of which the type keeps \<open>2 ^ 4096 - 2 ^ 4084 + 1 = 2 * v - 1\<close>,
  so the first round of the loop finds \<open>v - 1\<close> and \<open>IsPrime\<close> returns \<open>true\<close>. But \<open>v\<close> is a
  multiple of 8191 and the surplus is 1 modulo 8191, so no squaring of the surplus
  modulo \<open>v\<close> is ever \<open>v - 1\<close>.
\<close>

theorem IsPrime_oversize_counterexample:
  "odd (4095 * 2 ^ 4083 + 1 :: int) \<and> (3::int) \<le> 4095 * 2 ^ 4083 + 1
   \<and> (4095 * 2 ^ 4083 + 1 :: int) < 2 ^ MaxBits
   \<and> \<not> trial_division primes (4095 * 2 ^ 4083 + 1)
   \<and> (4095 * 2 ^ 4083 + 1 :: int) - 1 = 2 ^ 4083 * 4095 \<and> odd (4095::int)
   \<and> BinPower 2 4095 (4095 * 2 ^ 4083 + 1) = Inr (2 ^ 4083 - 1)
   \<and> (2::int) ^ nat 4095 mod (4095 * 2 ^ 4083 + 1) = 2 ^ 4083 - 1
   \<and> IsPrime (4095 * 2 ^ 4083 + 1) = Some (Inr True)
   \<and> \<not> (2 ^ 4083 - 1 = (1::int) \<or> 2 ^ 4083 - 1 = (4095 * 2 ^ 4083 + 1 :: int) - 1
        \<or> (\<exists>i. 1 \<le> i \<and> i \<le> 4083 - 1
             \<and> squarings (4095 * 2 ^ 4083 + 1) (2 ^ 4083 - 1) i = (4095 * 2 ^ 4083 + 1) - 1))"
proof (rule oversize_rule_fails [where c = 12 and k = 314])
  show "(2::nat) ^ 12 = 4083 + 12 + 1"
    by simp
  show "MaxBits = 4083 + 12 + 1"
    by (simp add: MaxBits_def)
  show "(1::nat) \<le> 12" and "(12::nat) < 4083" and "(4083::nat) = (12 + 1) * 314 + 1"
    by simp_all
  show "(4095::int) = 2 ^ 12 - 1"
    by simp
  show "(4095 * 2 ^ 4083 + 1 :: int) = 4095 * 2 ^ 4083 + 1"
    by (rule refl)
  show "\<not> trial_division primes (4095 * 2 ^ 4083 + 1)"
    by (rule oversize_filter)
qed

text \<open>
  C4 (as amended). \<open>IsPrime\<close> rejects every value that is a multiple of a member of
  \<open>{3, 5, 7, 11, 13, 17, 19, 23, 29, 31}\<close>, and it does so in the trial division, before
  the scan and before any modular exponentiation. It rejects every even value of the
  integer type as well; but 2 is not among the divisors tried, so an even value with no
  factor in the set passes the trial division and is rejected only by the witness check,
  after \<open>BinPower 2 v v\<close> has been computed.
\<close>

theorem IsPrime_rejects:
  "((\<exists>p\<in>set primes. p dvd v) \<longrightarrow> trial_division primes v \<and> IsPrime v = Some (Inr False))
   \<and> (even v \<longrightarrow> in_range v \<longrightarrow> IsPrime v = Some (Inr False))
   \<and> (even v \<longrightarrow> in_range v \<longrightarrow> \<not> (\<exists>p\<in>set primes. p dvd v) \<longrightarrow>
        \<not> trial_division primes v \<and> IsPrime v = Some (witness_check v 0)
        \<and> (\<exists>s. BinPower 2 v v = Inr s) \<and> witness_check v 0 = Inr False)"
proof (intro conjI impI)
  assume "\<exists>p\<in>set primes. p dvd v"
  then show "trial_division primes v" "IsPrime v = Some (Inr False)"
    by (simp_all add: trial_division_primes IsPrime_def)
next
  assume "even v" "in_range v"
  then show "IsPrime v = Some (Inr False)"
    using IsPrime_even [of v] by (cases "trial_division primes v") (simp_all add: IsPrime_def)
next
  assume "even v" "in_range v" "\<not> (\<exists>p\<in>set primes. p dvd v)"
  then have "\<not> trial_division primes v"
    by (simp add: trial_division_primes)
  with \<open>even v\<close> \<open>in_range v\<close> IsPrime_even [of v]
  show "\<not> trial_division primes v" "IsPrime v = Some (witness_check v 0)"
    "\<exists>s. BinPower 2 v v = Inr s" "witness_check v 0 = Inr False"
    by simp_all
qed

theorem IsPrime_rejects_witness:
  "(\<exists>p\<in>set primes. p dvd 9) \<and> trial_division primes 9 \<and> IsPrime 9 = Some (Inr False)
   \<and> even (4::int) \<and> in_range 4 \<and> \<not> (\<exists>p\<in>set primes. p dvd 4)
   \<and> IsPrime 4 = Some (Inr False) \<and> \<not> trial_division primes 4"
proof -
  have a: "\<exists>p\<in>set primes. p dvd 9"
    by (simp add: primes_def)
  have b: "in_range 4"
    using limit_ge_64 by (simp add: in_range_def)
  have c: "\<not> (\<exists>p\<in>set primes. p dvd 4)"
    by (simp add: primes_def)
  from a b c IsPrime_rejects [of 9] IsPrime_rejects [of 4] show ?thesis
    by simp
qed

text \<open>
  C4 as stated has every even value rejected by the trial division, before the witness
  computation. The value 4 is even, passes the trial division, and is rejected by the
  witness check, which computes \<open>BinPower 2 4 4\<close>.
\<close>

theorem IsPrime_even_counterexample:
  "even (4::int) \<and> in_range 4 \<and> \<not> trial_division primes 4
   \<and> IsPrime 4 = Some (witness_check 4 0) \<and> BinPower 2 4 4 = Inr 0
   \<and> witness_check 4 0 = Inr False"
proof -
  have "in_range 4"
    using limit_ge_64 by (simp add: in_range_def)
  moreover have "\<not> trial_division primes 4"
    by (simp add: primes_def signed_modulo_int_def)
  moreover have "scan_power (sub 4 1) 0 = Some 0"
    by (simp add: sub_def truncate_bits_small scan_power_odd)
  moreover have "add (sub 4 1) 1 = 4"
    by (simp add: sub_def add_def truncate_bits_small)
  moreover have p: "BinPower 2 4 4 = Inr 0"
    by (simp add: eval_simps)
  moreover have "witness_check 4 0 = Inr False"
    by (simp add: witness_check_def p divide_def shift_left_u_def sub_def truncate_bits_small
        squaring_loop.simps)
  ultimately show ?thesis
    by (simp add: IsPrime_def)
qed

text \<open>
  C9. \<open>IsPrime\<close> returns \<open>false\<close> for every member of the list of small primes, each
  being rejected by the trial division since it divides itself, and for 2; hence every
  prime up to 31 is classified as composite.
\<close>

theorem IsPrime_small_primes:
  "(\<forall>p\<in>set primes. trial_division primes p \<and> IsPrime p = Some (Inr False))
   \<and> IsPrime 2 = Some (Inr False)
   \<and> (\<forall>p. is_prime p \<longrightarrow> p \<le> 31 \<longrightarrow> IsPrime p = Some (Inr False))"
  using IsPrime_filter_members IsPrime_2 is_prime_le_31 by blast

theorem IsPrime_small_primes_witness:
  "7 \<in> set primes \<and> is_prime 7 \<and> (7::int) \<le> 31
   \<and> trial_division primes 7 \<and> IsPrime 7 = Some (Inr False)"
proof -
  have "7 \<in> set primes"
    by (simp add: primes_def)
  moreover have "is_prime 7"
    by code_simp
  ultimately show ?thesis
    using IsPrime_small_primes by auto
qed

text \<open>
  C10. For every value \<open>v\<close> of the integer type with \<open>v \<ge> 2\<close>, \<open>IsPrime v\<close> terminates
  and returns a boolean: either the trial division rejects \<open>v\<close>, or the scan over the bits
  of \<open>v - 1\<close> stops at a position below 4096 and the squaring loop runs at most
  \<open>pwr - 1\<close> times. The bound \<open>v \<ge> 2\<close> is needed: the value 1 passes the trial division,
  and the scan over \<open>1 - 1 = 0\<close> never finds a set bit, so \<open>IsPrime 1\<close> does not return.
\<close>

theorem IsPrime_terminates:
  "(2 \<le> v \<longrightarrow> v < 2 ^ MaxBits \<longrightarrow>
      (\<exists>r. IsPrime v = Some (Inr r))
      \<and> (trial_division primes v
          \<or> (\<exists>pwr. scan_power (sub v 1) 0 = Some pwr \<and> pwr < MaxBits
                \<and> (\<forall>s. squaring_rounds 1 pwr s v \<le> pwr - 1))))
   \<and> \<not> trial_division primes 1 \<and> scan_power (sub 1 1) 0 = None \<and> IsPrime 1 = None"
proof (intro conjI impI)
  assume v: "2 \<le> v" "v < 2 ^ MaxBits"
  then have s1: "sub v 1 = v - 1" and a1: "add (v - 1) 1 = v"
    by (simp_all add: sub_exact add_exact)
  from v obtain k q where kq: "v - 1 = 2 ^ k * q" "odd q" "0 < q"
    using two_power_decomp [of "v - 1"] by auto
  with v have k: "k < MaxBits"
    by (intro exp_less_limit [of q k]) simp_all
  have scan: "scan_power (v - 1) 0 = Some k"
    using kq(1,2) k by (rule scan_power_step) simp
  obtain r where r: "witness_check v k = Inr r"
    using witness_check_total [of v k] v k by auto
  show "\<exists>r. IsPrime v = Some (Inr r)"
    by (auto simp: IsPrime_def s1 a1 scan r)
  show "trial_division primes v
      \<or> (\<exists>pwr. scan_power (sub v 1) 0 = Some pwr \<and> pwr < MaxBits
            \<and> (\<forall>s. squaring_rounds 1 pwr s v \<le> pwr - 1))"
    using scan k squaring_rounds_le [of 1 k _ v] by (auto simp: s1)
qed (simp_all add: IsPrime_one)

theorem IsPrime_terminates_witness:
  "(2::int) \<le> 37 \<and> (37::int) < 2 ^ MaxBits \<and> (\<exists>r. IsPrime 37 = Some (Inr r))"
proof -
  have "(37::int) < 2 ^ MaxBits"
    using limit_ge_64 by simp
  with IsPrime_terminates [of 37] show ?thesis
    by simp
qed

section \<open>Claims about prime generation\<close>




section \<open>Claims about the extended Euclidean algorithm\<close>

text \<open>
  C7. For all non-negative \<open>a\<close> and \<open>b\<close> of the integer type, \<open>ExtendedEuclidian a b\<close>
  (a total function: it terminates on every input) returns a pair \<open>(x, y)\<close> with
  \<open>a * x + b * y = gcd a b\<close>, whether or not \<open>a\<close> and \<open>b\<close> are coprime; for \<open>a = 0\<close> it
  returns \<open>(0, 1)\<close>.
\<close>

theorem ExtendedEuclidian_bezout:
  "(0 \<le> a \<longrightarrow> 0 \<le> b \<longrightarrow> a < 2 ^ MaxBits \<longrightarrow> b < 2 ^ MaxBits \<longrightarrow>
      (case ExtendedEuclidian a b of (x, y) \<Rightarrow> a * x + b * y = gcd a b))
   \<and> ExtendedEuclidian 0 b' = (0, 1)"
proof (intro conjI impI)
  assume ab: "0 \<le> a" "0 \<le> b" "a < 2 ^ MaxBits" "b < 2 ^ MaxBits"
  show "case ExtendedEuclidian a b of (x, y) \<Rightarrow> a * x + b * y = gcd a b"
  proof (cases "a = 0")
    case True
    with ab show ?thesis by (simp add: ExtendedEuclidian_zero)
  next
    case False
    with ab ExtendedEuclidian_bezout_pos [of b a] show ?thesis
      by (auto split: prod.splits)
  qed
qed (rule ExtendedEuclidian_zero)


theorem ExtendedEuclidian_bezout_witness:
  "(0::int) \<le> 17 \<and> (0::int) \<le> 3120 \<and> (17::int) < 2 ^ MaxBits \<and> (3120::int) < 2 ^ MaxBits
   \<and> (case ExtendedEuclidian 17 3120 of (x, y) \<Rightarrow> 17 * x + 3120 * y = gcd 17 3120)
   \<and> (case ExtendedEuclidian 12 18 of (x, y) \<Rightarrow> 12 * x + 18 * y = gcd 12 18)"
proof -
  have r: "(17::int) < 2 ^ MaxBits" "(3120::int) < 2 ^ MaxBits"
    "(12::int) < 2 ^ MaxBits" "(18::int) < 2 ^ MaxBits"
    by (simp_all add: small_limit)
  have "case ExtendedEuclidian 17 3120 of (x, y) \<Rightarrow> 17 * x + 3120 * y = gcd 17 3120"
    using ExtendedEuclidian_bezout [of 17 3120] r by simp
  moreover have "case ExtendedEuclidian 12 18 of (x, y) \<Rightarrow> 12 * x + 18 * y = gcd 12 18"
    using ExtendedEuclidian_bezout [of 12 18] r by simp
  ultimately show ?thesis
    using r by simp
qed

section \<open>Claims about the cipher\<close>

text \<open>
  C8. \<open>Encode m (e, n)\<close> returns exactly \<open>BinPower m e n\<close>, whether or not \<open>m \<ge> n\<close>: the
  oversize condition only decides whether the line \<open>Block is too large.\<close> is written to
  the error stream, and with a non-zero modulus a value is always returned.
\<close>

theorem Encode_fail_open:
  "snd (Encode m (e, n)) = BinPower m e n
   \<and> fst (Encode m (e, n)) = (if m \<ge> n then [''Block is too large.''] else [])
   \<and> (n \<noteq> 0 \<longrightarrow> (\<exists>c. snd (Encode m (e, n)) = Inr c))"
  using BinPower_total [of n m e] by (simp add: Encode_def)

theorem Encode_fail_open_witness:
  "(15::int) \<noteq> 0 \<and> Encode 20 (3, 15) = ([''Block is too large.''], BinPower 20 3 15)
   \<and> BinPower 20 3 15 = Inr 5"
proof -
  have "BinPower 20 3 15 = Inr 5"
    by (simp add: eval_simps)
  with Encode_fail_open [of 20 3 15] show ?thesis
    by (cases "Encode 20 (3, 15)") simp
qed

text \<open>
  C1 (as amended). For every key pair \<open>{(e, n), (d, n)}\<close> with \<open>n = p * q\<close> for distinct primes \<open>p\<close> and
  \<open>q\<close> of at most 1024 bits each (more generally \<open>n \<le> 2 ^ 2048\<close>, so that the square of a
  residue fits the 4096 bits of the integer type), positive exponents with
  \<open>e * d mod ((p - 1) * (q - 1)) = 1\<close>, and every message \<open>0 \<le> m < n\<close>:
  \<open>Decode (Encode m (e, n)) (d, n) = m\<close>.
\<close>

theorem Decode_Encode_roundtrip:
  assumes "is_prime p" and "is_prime q" and "p \<noteq> q" and "n = p * q" and "n \<le> 2 ^ 2048"
    and "0 < e" and "0 < d" and "(e * d) mod ((p - 1) * (q - 1)) = 1"
    and "0 \<le> m" and "m < n"
  shows "\<exists>c. snd (Encode m (e, n)) = Inr c \<and> Decode c (d, n) = Inr m"
proof -
  have "1 < p" "1 < q"
    using assms(1,2) by (simp_all add: is_prime_gt_1)
  then have "1 * 1 < p * q"
    by (intro mult_strict_mono) simp_all
  then have n: "1 < n"
    using assms(4) by simp
  have "n * n \<le> 2 ^ 2048 * 2 ^ 2048"
    using n assms(5) by (intro mult_mono) simp_all
  also have "\<dots> = (2::int) ^ MaxBits"
    by (simp add: MaxBits_def flip: power_add)
  finally have nn: "n * n \<le> 2 ^ MaxBits" .
  have "(n - 1) * (n - 1) < n * n"
    using n by (simp add: algebra_simps)
  with nn have sq: "(n - 1) * (n - 1) < 2 ^ MaxBits"
    by simp
  have le: "(n - 1) * x < 2 ^ MaxBits" if "0 \<le> x" "x < n" for x
  proof -
    have "(n - 1) * x \<le> (n - 1) * (n - 1)"
      using that n by (intro mult_left_mono) simp_all
    with sq show ?thesis by simp
  qed
  define c where "c = m ^ nat e mod n"
  have c: "0 \<le> c" "c < n"
    using n by (simp_all add: c_def)
  have "BinPower m (int (nat e)) n = Inr c"
    unfolding c_def using assms(9) n sq le [OF assms(9,10)] by (rule BinPower_exact_nat)
  then have enc: "snd (Encode m (e, n)) = Inr c"
    using assms(6) by (simp add: Encode_def)
  have "BinPower c (int (nat d)) n = Inr (c ^ nat d mod n)"
    using c(1) n sq le [OF c] by (rule BinPower_exact_nat)
  also have "c ^ nat d mod n = m ^ (nat e * nat d) mod n"
    by (simp add: c_def power_mod power_mult)
  also have "\<dots> = m"
    using assms unfolding \<open>n = p * q\<close> by (intro rsa_exponents) simp_all
  finally have "Decode c (d, n) = Inr m"
    using assms(7) by (simp add: Decode_def)
  with enc show ?thesis by blast
qed

theorem Decode_Encode_roundtrip_witness:
  "is_prime 61 \<and> is_prime 53 \<and> (61::int) \<noteq> 53 \<and> (3233::int) = 61 * 53 \<and> (3233::int) \<le> 2 ^ 2048
   \<and> (0::int) < 17 \<and> (0::int) < 2753 \<and> (17 * 2753) mod ((61 - 1) * (53 - 1)) = (1::int)
   \<and> (0::int) \<le> 65 \<and> (65::int) < 3233
   \<and> snd (Encode 65 (17, 3233)) = Inr 2790 \<and> Decode 2790 (2753, 3233) = Inr 65"
proof -
  have "(2::int) ^ 12 \<le> 2 ^ 2048"
    by (rule power_increasing) simp_all
  then have small: "(3233::int) \<le> 2 ^ 2048"
    by simp
  have enc: "snd (Encode 65 (17, 3233)) = Inr 2790"
    by (simp add: Encode_def eval_simps)
  from Decode_Encode_roundtrip [of 61 53 3233 17 2753 65] prime_61 prime_53 small
  have "\<exists>c. snd (Encode 65 (17, 3233)) = Inr c \<and> Decode c (2753, 3233) = Inr 65"
    by simp
  with enc have "Decode 2790 (2753, 3233) = Inr 65"
    by auto
  with enc prime_61 prime_53 small show ?thesis
    by simp
qed

text \<open>
  C1 as stated, for every valid key pair, fails where the modulus exceeds half the width
  of the integer type. There is a prime \<open>p\<close> between \<open>2 ^ 2047\<close> and \<open>2 ^ 4094\<close>; with
  \<open>q = 3\<close>, \<open>n = 3 * p\<close> and \<open>e = d = (p - 1) * (q - 1) - 1\<close> the pair is valid
  (\<open>e * d mod ((p - 1) * (q - 1)) = 1\<close>), the message \<open>m = 2 ^ 2048\<close> is below \<open>n\<close>, its
  square is \<open>2 ^ 4096\<close>, whose low 4096 bits are zero, so \<open>Encode\<close> returns 0 and \<open>Decode\<close>
  returns 0, not \<open>m\<close>.
\<close>

theorem Decode_Encode_oversize_counterexample:
  "\<not> (\<forall>p q e d m. is_prime p \<and> is_prime q \<and> p \<noteq> q \<and> odd p \<and> odd q \<and> in_range (p * q)
        \<and> 0 < e \<and> e < (p - 1) * (q - 1) \<and> 0 < d \<and> d < (p - 1) * (q - 1)
        \<and> (e * d) mod ((p - 1) * (q - 1)) = 1 \<and> 0 \<le> m \<and> m < p * q
      \<longrightarrow> (\<exists>c. snd (Encode m (e, p * q)) = Inr c \<and> Decode c (d, p * q) = Inr m))"
proof
  assume all: "\<forall>p q e d m. is_prime p \<and> is_prime q \<and> p \<noteq> q \<and> odd p \<and> odd q \<and> in_range (p * q)
        \<and> 0 < e \<and> e < (p - 1) * (q - 1) \<and> 0 < d \<and> d < (p - 1) * (q - 1)
        \<and> (e * d) mod ((p - 1) * (q - 1)) = 1 \<and> 0 \<le> m \<and> m < p * q
      \<longrightarrow> (\<exists>c. snd (Encode m (e, p * q)) = Inr c \<and> Decode c (d, p * q) = Inr m)"
  obtain p q e where key: "is_prime p" "is_prime q" "p \<noteq> q" "odd p" "odd q"
      "2 ^ 2048 < p * q" "in_range (p * q)"
      "0 < e" "e < (p - 1) * (q - 1)" "(e * e) mod ((p - 1) * (q - 1)) = 1"
      "snd (Encode (2 ^ 2048) (e, p * q)) = Inr 0" "Decode 0 (e, p * q) = Inr 0"
    using oversize_key by blast
  have m: "(0::int) \<le> 2 ^ 2048" "(0::int) < 2 ^ 2048"
    by (rule zero_le_power zero_less_power; simp)+
  from all [rule_format, of p q e e "2 ^ 2048"] key m(1)
  obtain c where "snd (Encode (2 ^ 2048) (e, p * q)) = Inr c"
      "Decode c (e, p * q) = Inr (2 ^ 2048)"
    by blast
  with key(11,12) have "(2::int) ^ 2048 = 0"
    by (simp only: sum.inject) 
  with m(2) show False
    by (simp only: less_irrefl)
qed

section \<open>Claims about key generation\<close>

text \<open>
  C3 (as amended). For every pair of odd primes \<open>p\<close>, \<open>q\<close> of \<open>bitsCount\<close> bits whose product is
  a value of the integer type, whenever \<open>GenerateRSAKeys p q bitsCount\<close> terminates it
  returns a key pair \<open>{(e, p * q), (d, p * q)}\<close>, not an exception, whose exponents satisfy
  \<open>e * d mod \<phi> = gcd e \<phi>\<close> with \<open>\<phi> = (p - 1) * (q - 1)\<close>; so \<open>e * d mod \<phi> = 1\<close> holds
  exactly when the generated \<open>e\<close> is coprime to \<open>\<phi>\<close>, which the loop does not check. Both
  \<open>e\<close> and \<open>d\<close> are positive and less than \<open>\<phi>\<close>.
\<close>

theorem GenerateRSAKeys_exponents:
  assumes "is_prime p" and "is_prime q" and "odd p" and "odd q"
    and "2 ^ (nat bitsCount - 1) \<le> p" and "p < 2 ^ nat bitsCount"
    and "2 ^ (nat bitsCount - 1) \<le> q" and "q < 2 ^ nat bitsCount"
    and "p * q < 2 ^ MaxBits"
    and "GenerateRSAKeys p q bitsCount seeds = Some r"
  shows "\<exists>diag e d. r = Inr (diag, make_TRSAKeys e d (p * q))
     \<and> (e * d) mod ((p - 1) * (q - 1)) = gcd e ((p - 1) * (q - 1))
     \<and> ((e * d) mod ((p - 1) * (q - 1)) = 1 \<longleftrightarrow> coprime e ((p - 1) * (q - 1)))
     \<and> 0 < e \<and> e < (p - 1) * (q - 1) \<and> 0 < d \<and> d < (p - 1) * (q - 1)"
proof -
  define phi where "phi = (p - 1) * (q - 1)"
  define b where "b = nat bitsCount"
  have pq: "1 < p" "1 < q"
    using assms(1,2) by (simp_all add: is_prime_gt_1)
  have "(2::int) ^ 1 < 2 ^ b"
    using pq(1) assms(6) unfolding b_def by simp
  then have "1 < b"
    by (rule power_less_imp_less_exp [rotated]) simp
  then have b2: "2 \<le> b"
    by simp
  then have bits: "2 \<le> bitsCount"
    by (simp add: b_def)
  have pred: "2 ^ (b - 1) \<le> p - 1" "2 ^ (b - 1) \<le> q - 1"
    using odd_bit_length_pred [of p bitsCount] odd_bit_length_pred [of q bitsCount] assms b2
    by (simp_all add: b_def)
  have "(2::int) ^ (b - 1) * 2 ^ (b - 1) \<le> (p - 1) * (q - 1)"
    using pred pq by (intro mult_mono) simp_all
  moreover have "(2::int) ^ b \<le> 2 ^ (b - 1 + (b - 1))"
    using b2 by (intro power_increasing) simp_all
  ultimately have phi_big: "2 ^ b \<le> phi"
    by (simp add: phi_def power_add)
  have "phi < p * q"
    using pq by (simp add: phi_def algebra_simps)
  with assms(9) have phi_lim: "phi < 2 ^ MaxBits"
    by simp
  have phi_pos: "0 < phi"
    using pq by (simp add: phi_def)
  have "p * 1 \<le> p * q" "1 * q \<le> p * q"
    using pq by (intro mult_left_mono mult_right_mono; simp)+
  with assms(9) have "p < 2 ^ MaxBits" "q < 2 ^ MaxBits"
    by simp_all
  with pq have "sub p 1 = p - 1" "sub q 1 = q - 1"
    by (simp_all add: sub_exact)
  with pq assms(9) phi_lim have arith: "mul p q = p * q" "mul (sub p 1) (sub q 1) = phi"
    by (simp_all add: mul_exact phi_def)
  from assms(10) obtain y where loop: "exponent_loop bitsCount phi seeds 0 0 (- 1) = Some y"
    by (auto simp: GenerateRSAKeys_def arith split: option.splits)
  have small: "min bitsCount 32 \<le> int MaxBits"
    by (simp add: MaxBits_def)
  have bits': "2 \<le> min bitsCount 32"
    using bits by simp
  then have gp: "GeneratePrime (to_uint32 (min bitsCount 32)) coins
      = FPrime (min bitsCount 32) coins" for coins
    by (intro GeneratePrime_int) simp_all
  from exponent_loop_result [OF loop] consider
      err k' where "y = Inl err" "GeneratePrime (to_uint32 (min bitsCount 32)) (seeds k') = Some (Inl err)"
    | e d k' where "y = Inr (e, d)" "0 \<le> d" "d = fst (ExtendedEuclidian e phi)"
        "GeneratePrime (to_uint32 (min bitsCount 32)) (seeds k') = Some (Inr e)"
    by auto
  then show ?thesis
  proof cases
    case 1
    from FPrime_properties [OF _ small, of "seeds k'" "Inl err"] 1(2) bits'
    show ?thesis
      by (simp add: gp)
  next
    case 2
    from FPrime_properties [OF _ small, of "seeds k'" "Inr e"] 2(4) bits'
    have e: "2 ^ (nat (min bitsCount 32) - 1) \<le> e" "e < 2 ^ nat (min bitsCount 32)"
      by (simp_all add: gp)
    have "(2::int) ^ nat (min bitsCount 32) \<le> 2 ^ b"
      unfolding b_def by (intro power_increasing) simp_all
    with e(2) have "e < 2 ^ b"
      by (rule less_le_trans)
    with phi_big have e_phi: "e < phi"
      by (rule less_le_trans [rotated])
    have "(0::int) < 2 ^ (nat (min bitsCount 32) - 1)"
      by simp
    with e(1) have e_pos: "0 < e"
      by (rule less_le_trans [rotated])
    obtain x z where xz: "ExtendedEuclidian e phi = (x, z)"
      by (cases "ExtendedEuclidian e phi")
    have bez: "e * x + phi * z = gcd e phi" "\<bar>x\<bar> \<le> max 1 phi"
      using ExtendedEuclidian_bezout_pos [OF phi_lim e_pos, of ] phi_pos e_phi phi_lim
      by (simp_all add: xz)
    have d: "d = x"
      using 2(3) by (simp add: xz)
    define g where "g = gcd e phi"
    have g: "0 < g" "g \<le> e" "g dvd phi"
      using e_pos by (simp_all add: g_def gcd_le1_int)
    have no: "\<not> phi dvd g"
      using g e_phi by (auto dest: zdvd_imp_le)
    have "e * d = g + phi * (- z)"
      using bez(1) by (simp add: d g_def algebra_simps)
    then have "(e * d) mod phi = (g + phi * (- z)) mod phi"
      by (simp only:)
    also have "\<dots> = g mod phi"
      by (rule mod_mult_self2)
    also have "\<dots> = g"
      using g e_phi by simp
    finally have ed: "(e * d) mod phi = g" .
    have "d \<noteq> 0"
    proof
      assume "d = 0"
      with bez(1) have "g = phi * z" by (simp add: d g_def)
      then have "phi dvd g" by (rule dvdI)
      with no show False ..
    qed
    with 2(2) have d_pos: "0 < d" by simp
    have "d \<noteq> phi"
    proof
      assume "d = phi"
      with bez(1) have "g = phi * (e + z)" by (simp add: d g_def algebra_simps)
      then have "phi dvd g" by (rule dvdI)
      with no show False ..
    qed
    with bez(2) phi_pos d_pos have d_phi: "d < phi"
      by (simp add: d)
    have "modulo (mul e d) phi = Inr (mul e d smod phi)"
      using phi_pos by (simp add: modulo_def)
    with assms(10) 2(1) loop obtain diag where "r = Inr (diag, make_TRSAKeys e d (p * q))"
      by (auto simp: GenerateRSAKeys_def arith)
    moreover have "(e * d) mod phi = 1 \<longleftrightarrow> coprime e phi"
      by (simp add: ed g_def coprime_iff_gcd_eq_1)
    ultimately have "r = Inr (diag, make_TRSAKeys e d (p * q))
        \<and> (e * d) mod phi = gcd e phi \<and> ((e * d) mod phi = 1 \<longleftrightarrow> coprime e phi)
        \<and> 0 < e \<and> e < phi \<and> 0 < d \<and> d < phi"
      using ed e_pos e_phi d_pos d_phi by (simp add: g_def)
    then show ?thesis
      unfolding phi_def by blast
  qed
qed

theorem GenerateRSAKeys_exponents_witness:
  "is_prime 53 \<and> is_prime 61 \<and> odd (53::int) \<and> odd (61::int)
   \<and> 2 ^ (nat 6 - 1) \<le> (53::int) \<and> (53::int) < 2 ^ nat 6
   \<and> 2 ^ (nat 6 - 1) \<le> (61::int) \<and> (61::int) < 2 ^ nat 6
   \<and> (53::int) * 61 < 2 ^ MaxBits
   \<and> GenerateRSAKeys 53 61 6
        (\<lambda>k i. if k = 0 then (if i = 2 then 0 else 1) else (if i = 2 \<or> i = 3 then 0 else 1))
       = Some (Inr ([], make_TRSAKeys 61 1381 3233))
   \<and> (\<exists>diag e d. Inr ([], make_TRSAKeys 61 1381 3233) = Inr (diag, make_TRSAKeys e d (53 * 61))
     \<and> (e * d) mod ((53 - 1) * (61 - 1)) = gcd e ((53 - 1) * (61 - 1))
     \<and> ((e * d) mod ((53 - 1) * (61 - 1)) = 1 \<longleftrightarrow> coprime e ((53 - 1) * (61 - 1)))
     \<and> 0 < e \<and> e < (53 - 1) * (61 - 1) \<and> 0 < d \<and> d < (53 - 1) * (61 - 1))"
proof -
  have size: "2 ^ (nat 6 - 1) \<le> (53::int)" "(53::int) < 2 ^ nat 6"
    "2 ^ (nat 6 - 1) \<le> (61::int)" "(61::int) < 2 ^ nat 6" "odd (53::int)" "odd (61::int)"
    by simp_all
  have fits: "(53::int) * 61 < 2 ^ MaxBits"
    by (simp add: small_limit)
  note run = GenerateRSAKeys_6
  from GenerateRSAKeys_exponents [OF prime_53 prime_61 size(5,6) size(1-4) fits run]
  show ?thesis
    using prime_53 prime_61 size fits run by blast
qed

text \<open>
  C3 as stated promises \<open>e * d mod \<phi> = 1\<close> for every returned pair. With the 12-bit primes
  3109 and 3271 and coins that make the first candidate exponent 4033 (a composite,
  \<open>37 * 109\<close>, that passes \<open>IsPrime\<close>), \<open>\<phi> = 3108 * 3270\<close> is a multiple of 4033, the
  Euclidean step returns 1, the loop accepts it, and the keys returned have
  \<open>e * d mod \<phi> = 4033\<close>; the function only writes the warning.
\<close>

theorem GenerateRSAKeys_gcd_counterexample:
  "is_prime 3109 \<and> is_prime 3271 \<and> odd (3109::int) \<and> odd (3271::int)
   \<and> 2 ^ (nat 12 - 1) \<le> (3109::int) \<and> (3109::int) < 2 ^ nat 12
   \<and> 2 ^ (nat 12 - 1) \<le> (3271::int) \<and> (3271::int) < 2 ^ nat 12
   \<and> GenerateRSAKeys 3109 3271 12 (\<lambda>k i. if 6 \<le> i \<and> i \<le> 9 then 0 else 1)
       = Some (Inr ([''Warning. Incorrect exps''], make_TRSAKeys 4033 1 (3109 * 3271)))
   \<and> (4033 * 1) mod ((3109 - 1) * (3271 - 1)) \<noteq> (1::int)"
  using prime_3109 prime_3271 GenerateRSAKeys_12 by simp

end
